theory Spec2Isabelle
  imports Main
begin

section \<open>Values of the style tree\<close>

text \<open>
  The compiler of \<^verbatim>\<open>generator.ts\<close> walks plain JavaScript data. A value is
  \<^verbatim>\<open>undefined\<close>, \<^verbatim>\<open>null\<close>, a primitive (a string, or a number carried as the
  text \<^verbatim>\<open>String(v)\<close> gives it), or an object: its own enumerable string keys
  with their values, in the order \<^verbatim>\<open>Object.keys\<close> and \<^verbatim>\<open>for .. in\<close> enumerate
  them (keys of one object are distinct). A \<^verbatim>\<open>PlumetStyle\<close> and a
  \<^verbatim>\<open>CSS.Properties\<close> block are both objects; the code tells them apart by the
  key they sit under, and so does the model.

  Strings are lists of 8-bit characters: code units above 255 are outside the model.
\<close>

datatype jsval = Undefined | Null | Prim string | Obj "(string \<times> jsval) list"

type_synonym object = "(string \<times> jsval) list"

datatype format = Default | Minify | Pretty

record CompileOptions =
  omit :: "string list option"
  format :: "format option"

datatype CompileOptionsInput = OmitArray "string list" | Options CompileOptions | NoOptions

text \<open>\<^verbatim>\<open>obj[key]\<close>: the value stored under the key, \<^verbatim>\<open>undefined\<close> when there is none.\<close>

definition getProp :: "object \<Rightarrow> string \<Rightarrow> jsval" where
  "getProp obj key = (case map_of obj key of None \<Rightarrow> Undefined | Some v \<Rightarrow> v)"

text \<open>\<^verbatim>\<open>String(v)\<close> on the values a declaration can hold.\<close>

fun toString :: "jsval \<Rightarrow> string" where
  "toString Undefined = ''undefined''"
| "toString Null = ''null''"
| "toString (Prim s) = s"
| "toString (Obj kvs) = ''[object Object]''"

text \<open>\<^verbatim>\<open>key.charCodeAt(0) === code\<close>; on the empty string \<^verbatim>\<open>charCodeAt\<close> is NaN.\<close>

definition firstCharIs :: "string \<Rightarrow> char \<Rightarrow> bool" where
  "firstCharIs key ch = (case key of [] \<Rightarrow> False | c # _ \<Rightarrow> c = ch)"

text \<open>\<^verbatim>\<open>s.indexOf(c, from)\<close>, with \<open>None\<close> for \<^verbatim>\<open>-1\<close>, and \<^verbatim>\<open>s.slice(a, b)\<close>.\<close>

definition indexOf :: "string \<Rightarrow> char \<Rightarrow> nat \<Rightarrow> nat option" where
  "indexOf s c from =
     (if c \<in> set (drop from s)
      then Some (from + length (takeWhile (\<lambda>x. x \<noteq> c) (drop from s)))
      else None)"

definition slice :: "string \<Rightarrow> nat \<Rightarrow> nat \<Rightarrow> string" where
  "slice s a b = take (b - a) (drop a s)"


section \<open>Property names: kebabCase and its cache\<close>

text \<open>
  \<^verbatim>\<open>kebabCache\<close> is a module-level \<^verbatim>\<open>Map\<close>; \<^verbatim>\<open>kebabCase\<close> is its only reader and
  writer. The model passes the cache in and returns it updated. A cached empty
  string is falsy, so \<^verbatim>\<open>if (cached) return cached\<close> falls through on it.
\<close>

type_synonym cache = "string \<rightharpoonup> string"

fun kebabLoop :: "string \<Rightarrow> string \<Rightarrow> string" where
  "kebabLoop [] result = result"
| "kebabLoop (ch # rest) result =
     kebabLoop rest
       (if 65 \<le> (of_char ch :: nat) \<and> (of_char ch :: nat) \<le> 90
        then result @ [CHR ''-'', char_of ((of_char ch :: nat) + 32)]
        else result @ [ch])"

definition kebabCase :: "cache \<Rightarrow> string \<Rightarrow> string \<times> cache" where
  "kebabCase kebabCache key =
     (case kebabCache key of
        Some cached \<Rightarrow>
          if cached \<noteq> [] then (cached, kebabCache)
          else (let result = kebabLoop key [] in (result, kebabCache(key \<mapsto> result)))
      | None \<Rightarrow> (let result = kebabLoop key [] in (result, kebabCache(key \<mapsto> result))))"

text \<open>
  Every state the cache can be in: it starts empty and changes only inside
  \<^verbatim>\<open>kebabCase\<close>, so a state is fixed by the keys \<^verbatim>\<open>kebabCase\<close> was called on so far.
\<close>

fun cacheAfter :: "string list \<Rightarrow> cache" where
  "cacheAfter [] = Map.empty"
| "cacheAfter (key # earlier) = snd (kebabCase (cacheAfter earlier) key)"


section \<open>Selector resolver\<close>

function injectLoop :: "string \<Rightarrow> string \<Rightarrow> string \<Rightarrow> nat \<Rightarrow> nat option \<Rightarrow> string" where
  "injectLoop template selector acc lastIdx idx =
     (case idx of
        None \<Rightarrow> acc @ drop lastIdx template
      | Some i \<Rightarrow>
          injectLoop template selector (acc @ slice template lastIdx i @ selector) (i + 1)
            (indexOf template CHR ''&'' (i + 1)))"
  by pat_completeness auto
termination
proof (relation "measure (\<lambda>(template, selector, acc, lastIdx, idx).
         case idx of None \<Rightarrow> 0 | Some i \<Rightarrow> Suc (length template - i))")
  show "wf (measure (\<lambda>(template, selector, acc, lastIdx, idx).
         case idx of None \<Rightarrow> 0 | Some i \<Rightarrow> Suc (length template - i)))"
    by simp
next
  fix template selector :: string and acc :: string and lastIdx :: nat and idx :: "nat option" and i :: nat
  assume "idx = Some i"
  show "((template, selector, acc @ slice template lastIdx i @ selector, i + 1,
           indexOf template CHR ''&'' (i + 1)),
          (template, selector, acc, lastIdx, idx))
        \<in> measure (\<lambda>(template, selector, acc, lastIdx, idx).
             case idx of None \<Rightarrow> 0 | Some i \<Rightarrow> Suc (length template - i))"
  proof (cases "CHR ''&'' \<in> set (drop (i + 1) template)")
    case False
    with \<open>idx = Some i\<close> show ?thesis by (simp add: indexOf_def)
  next
    case True
    then have "drop (i + 1) template \<noteq> []" by auto
    then have "i + 1 < length template" by simp
    with True \<open>idx = Some i\<close> show ?thesis by (simp add: indexOf_def)
  qed
qed

definition injectSelector :: "string \<Rightarrow> string \<Rightarrow> string" where
  "injectSelector template selector =
     (case indexOf template CHR ''&'' 0 of
        None \<Rightarrow> template
      | Some idx \<Rightarrow> injectLoop template selector [] 0 (Some idx))"

definition resolveSelector :: "string \<Rightarrow> string \<Rightarrow> string" where
  "resolveSelector parent key =
     (if indexOf key CHR ''&'' 0 \<noteq> None then injectSelector key parent
      else if firstCharIs key CHR '':'' then parent @ key
      else if parent \<noteq> [] then parent @ '' '' @ key
      else key)"


section \<open>Exclusion matcher\<close>

text \<open>
  \<^verbatim>\<open>globToRegex\<close> builds the source text of a regular expression and hands it to
  the \<^verbatim>\<open>RegExp\<close> constructor. The two \<^verbatim>\<open>replace\<close> calls are modelled on the text.
  \<^verbatim>\<open>RegExp\<close> itself belongs to the language; the model covers the part of its
  syntax that matters here: the anchors around the whole source, an escaped
  syntax character, the dot, the dot under a star, and any character that has no
  meaning of its own. On any other source \<open>newRegExp\<close> is \<open>None\<close> (a
  \<^verbatim>\<open>SyntaxError\<close>, or syntax the model does not interpret). No flags are set, so
  the dot stops at a line terminator.
\<close>

definition backslash :: char where
  "backslash = CHR 0x5C"

definition regexSpecial :: "char \<Rightarrow> bool" where
  "regexSpecial c = (c = backslash \<or> c \<in> set ''^$+?.()|[]{}-'')"

definition escapeSpecials :: "string \<Rightarrow> string" where
  "escapeSpecials glob = concat (map (\<lambda>c. if regexSpecial c then [backslash, c] else [c]) glob)"

definition replaceStars :: "string \<Rightarrow> string" where
  "replaceStars escaped = concat (map (\<lambda>c. if c = CHR ''*'' then ''.*'' else [c]) escaped)"

datatype atom = Lit char | Dot | DotStar

type_synonym regex = "atom list"

fun parseAtoms :: "string \<Rightarrow> regex option" where
  "parseAtoms [] = Some []"
| "parseAtoms [c] =
     (if c = CHR ''.'' then Some [Dot]
      else if regexSpecial c \<or> c = CHR ''*'' then None
      else Some [Lit c])"
| "parseAtoms (c # d # rest) =
     (if c = backslash then
        (if regexSpecial d \<or> d = CHR ''*'' then map_option ((#) (Lit d)) (parseAtoms rest) else None)
      else if c = CHR ''.'' then
        (if d = CHR ''*'' then map_option ((#) DotStar) (parseAtoms rest)
         else map_option ((#) Dot) (parseAtoms (d # rest)))
      else if regexSpecial c \<or> c = CHR ''*'' then None
      else map_option ((#) (Lit c)) (parseAtoms (d # rest)))"

definition newRegExp :: "string \<Rightarrow> regex option" where
  "newRegExp source =
     (case source of
        [] \<Rightarrow> None
      | c # rest \<Rightarrow>
          if c = CHR ''^'' \<and> rest \<noteq> [] \<and> last rest = CHR ''$''
          then parseAtoms (butlast rest) else None)"

definition lineTerminator :: "char \<Rightarrow> bool" where
  "lineTerminator c = (c = CHR 0x0A \<or> c = CHR 0x0D)"

text \<open>\<^verbatim>\<open>re.test(s)\<close> for an expression anchored at both ends.\<close>

fun test :: "regex \<Rightarrow> string \<Rightarrow> bool" where
  "test [] s = (s = [])"
| "test (Lit c # re) [] = False"
| "test (Lit c # re) (x # s) = (x = c \<and> test re s)"
| "test (Dot # re) [] = False"
| "test (Dot # re) (x # s) = (\<not> lineTerminator x \<and> test re s)"
| "test (DotStar # re) [] = test re []"
| "test (DotStar # re) (x # s) =
     (test re (x # s) \<or> (\<not> lineTerminator x \<and> test (DotStar # re) s))"

definition globToRegex :: "string \<Rightarrow> regex option" where
  "globToRegex glob =
     (let escaped = escapeSpecials glob;
          withWildcards = replaceStars escaped
      in newRegExp (''^'' @ withWildcards @ ''$''))"

text \<open>
  \<^verbatim>\<open>(omit ?? []).map(globToRegex)\<close> stops at the first pattern the constructor
  rejects; \<open>None\<close> stands for the exception.
\<close>

fun mapGlobToRegex :: "string list \<Rightarrow> regex list option" where
  "mapGlobToRegex [] = Some []"
| "mapGlobToRegex (glob # globs) =
     (case globToRegex glob of
        None \<Rightarrow> None
      | Some re \<Rightarrow> map_option ((#) re) (mapGlobToRegex globs))"

definition createOmitMatcher :: "string list option \<Rightarrow> (string \<Rightarrow> bool) option" where
  "createOmitMatcher omitGlobs =
     (case mapGlobToRegex (case omitGlobs of None \<Rightarrow> [] | Some globs \<Rightarrow> globs) of
        None \<Rightarrow> None
      | Some omitMatchers \<Rightarrow>
          Some (if omitMatchers = [] then (\<lambda>selector. False)
                else (\<lambda>selector. list_ex (\<lambda>re. test re selector) omitMatchers)))"

definition normalizeOptions :: "CompileOptionsInput \<Rightarrow> CompileOptions" where
  "normalizeOptions options =
     (case options of
        OmitArray globs \<Rightarrow> \<lparr>omit = Some globs, format = None\<rparr>
      | Options opts \<Rightarrow> opts
      | NoOptions \<Rightarrow> \<lparr>omit = None, format = None\<rparr>)"


section \<open>Declaration collector\<close>

text \<open>
  \<^verbatim>\<open>collectDeclarations\<close> takes \<^verbatim>\<open>style.$\<close>, typed \<^verbatim>\<open>CSS.Properties | undefined\<close>.
  A primitive there is outside that type; a number or an empty string yields no
  entry in the code, and the model yields none for every primitive.
\<close>

type_synonym declarations = "(string \<times> string) list"

fun collectLoop :: "cache \<Rightarrow> object \<Rightarrow> declarations \<Rightarrow> declarations \<times> cache" where
  "collectLoop kebabCache [] entries = (entries, kebabCache)"
| "collectLoop kebabCache ((k, v) # rest) entries =
     (if v = Undefined \<or> v = Null then collectLoop kebabCache rest entries
      else (case kebabCase kebabCache k of
              (name, kebabCache') \<Rightarrow>
                collectLoop kebabCache' rest (entries @ [(name, toString v)])))"

definition collectDeclarations :: "cache \<Rightarrow> jsval \<Rightarrow> declarations \<times> cache" where
  "collectDeclarations kebabCache props =
     (case props of
        Obj kvs \<Rightarrow> collectLoop kebabCache kvs []
      | _ \<Rightarrow> ([], kebabCache))"


section \<open>Format renderer\<close>

text \<open>
  \<^verbatim>\<open>out\<close> is the array of pieces the walker pushes onto; \<^verbatim>\<open>out.join("")\<close> is
  \<open>concat\<close>.
\<close>

definition indent :: "nat \<Rightarrow> format \<Rightarrow> string" where
  "indent depth fmt = (if fmt \<noteq> Pretty then [] else concat (replicate depth ''  ''))"

definition writeRule ::
  "string list \<Rightarrow> string \<Rightarrow> declarations \<Rightarrow> nat \<Rightarrow> format \<Rightarrow> string list" where
  "writeRule out selector decls depth fmt =
     (if fmt = Pretty then
        (let base = indent depth fmt;
             out1 = out @ [base, selector, '' {\<newline>''];
             out2 = foldl (\<lambda>acc (prop, val).
                      acc @ [indent (depth + 1) fmt, prop, '': '', val, '';\<newline>'']) out1 decls
         in out2 @ [base, ''}\<newline>''])
      else
        (let out1 = out @ [selector, ''{''];
             out2 = foldl (\<lambda>acc (prop, val). acc @ [prop, '':'', val, '';'']) out1 decls;
             out3 = out2 @ [''}'']
         in if fmt = Default then out3 @ [''\<newline>''] else out3))"

definition writeDeclarations ::
  "string list \<Rightarrow> declarations \<Rightarrow> nat \<Rightarrow> format \<Rightarrow> string list" where
  "writeDeclarations out decls depth fmt =
     (if fmt = Pretty then
        foldl (\<lambda>acc (prop, val). acc @ [indent depth fmt, prop, '': '', val, '';\<newline>'']) out decls
      else
        foldl (\<lambda>acc (prop, val). acc @ [prop, '':'', val, '';'']) out decls)"

definition wrapAtRule :: "string \<Rightarrow> string \<Rightarrow> nat \<Rightarrow> format \<Rightarrow> string" where
  "wrapAtRule name body depth fmt =
     (if body = [] then []
      else if fmt = Pretty then
        (let base = indent depth fmt
         in base @ name @ '' {\<newline>'' @ body @ base @ ''}\<newline>'')
      else
        (let newline = (if fmt = Default then ''\<newline>'' else [])
         in name @ ''{'' @ body @ ''}'' @ newline))"


section \<open>Tree walker\<close>

text \<open>
  The walker iterates \<^verbatim>\<open>Object.keys(style)\<close> and reads \<^verbatim>\<open>style[key]\<close>; the model
  iterates the entries of the object. \<^verbatim>\<open>compileRuleNode\<close> has two loops: the one
  over its own keys (\<open>ruleLoop\<close>) and, inside its at-rule branch, the one over the
  keys of the at-rule child (\<open>inlineLoop\<close>); \<open>atLoop\<close> is the loop of
  \<^verbatim>\<open>compileAtRule\<close>. Each function returns the array it pushed onto together
  with the cache. The boolean \<^verbatim>\<open>compileRuleNode\<close> returns
  (\<^verbatim>\<open>out.length > startLength\<close>) is read by no caller and is left out.
\<close>

function compileRuleNode ::
    "cache \<Rightarrow> string \<Rightarrow> object \<Rightarrow> nat \<Rightarrow> format \<Rightarrow> (string \<Rightarrow> bool) \<Rightarrow> string list
      \<Rightarrow> string list \<times> cache"
  and ruleLoop ::
    "cache \<Rightarrow> string \<Rightarrow> nat \<Rightarrow> format \<Rightarrow> (string \<Rightarrow> bool) \<Rightarrow> object \<Rightarrow> string list
      \<Rightarrow> string list \<times> cache"
  and inlineLoop ::
    "cache \<Rightarrow> string \<Rightarrow> nat \<Rightarrow> format \<Rightarrow> (string \<Rightarrow> bool) \<Rightarrow> object \<Rightarrow> string list
      \<Rightarrow> string list \<times> cache"
  and compileAtRule ::
    "cache \<Rightarrow> string \<Rightarrow> object \<Rightarrow> string \<Rightarrow> nat \<Rightarrow> format \<Rightarrow> (string \<Rightarrow> bool)
      \<Rightarrow> string \<times> cache"
  and atLoop ::
    "cache \<Rightarrow> string \<Rightarrow> nat \<Rightarrow> format \<Rightarrow> (string \<Rightarrow> bool) \<Rightarrow> object \<Rightarrow> string list
      \<Rightarrow> string list \<times> cache"
where
  "compileRuleNode kebabCache selector style depth fmt isOmitted out =
     (case collectDeclarations kebabCache (getProp style ''$'') of
        (decls, kebabCache1) \<Rightarrow>
          ruleLoop kebabCache1 selector depth fmt isOmitted style
            (if decls \<noteq> [] then writeRule out selector decls depth fmt else out))"
| "ruleLoop kebabCache selector depth fmt isOmitted [] out = (out, kebabCache)"
| "ruleLoop kebabCache selector depth fmt isOmitted ((key, child) # keys) out =
     (if key = [] \<or> key = ''$'' then ruleLoop kebabCache selector depth fmt isOmitted keys out
      else case child of
        Obj childStyle \<Rightarrow>
          if firstCharIs key CHR ''@'' then
            (case collectDeclarations kebabCache (getProp childStyle ''$'') of
               (childDecl, kebabCache1) \<Rightarrow>
                 (case inlineLoop kebabCache1 selector depth fmt isOmitted childStyle
                         (if childDecl \<noteq> [] then writeDeclarations [] childDecl (depth + 1) fmt
                          else []) of
                    (bodyParts, kebabCache2) \<Rightarrow>
                      ruleLoop kebabCache2 selector depth fmt isOmitted keys
                        (if concat bodyParts \<noteq> []
                         then out @ [wrapAtRule key (concat bodyParts) depth fmt] else out)))
          else if isOmitted (resolveSelector selector key) then
            ruleLoop kebabCache selector depth fmt isOmitted keys out
          else
            (case compileRuleNode kebabCache (resolveSelector selector key) childStyle depth fmt
                    isOmitted out of
               (out', kebabCache1) \<Rightarrow> ruleLoop kebabCache1 selector depth fmt isOmitted keys out')
      | _ \<Rightarrow> ruleLoop kebabCache selector depth fmt isOmitted keys out)"
| "inlineLoop kebabCache selector depth fmt isOmitted [] bodyParts = (bodyParts, kebabCache)"
| "inlineLoop kebabCache selector depth fmt isOmitted ((childKey, nested) # childKeys) bodyParts =
     (if childKey = [] \<or> childKey = ''$'' then
        inlineLoop kebabCache selector depth fmt isOmitted childKeys bodyParts
      else case nested of
        Obj nestedStyle \<Rightarrow>
          if firstCharIs childKey CHR ''@'' then
            (case compileAtRule kebabCache childKey nestedStyle selector (depth + 1) fmt
                    isOmitted of
               (nestedBody, kebabCache1) \<Rightarrow>
                 inlineLoop kebabCache1 selector depth fmt isOmitted childKeys
                   (if nestedBody \<noteq> [] then bodyParts @ [nestedBody] else bodyParts))
          else if isOmitted (resolveSelector selector childKey) then
            inlineLoop kebabCache selector depth fmt isOmitted childKeys bodyParts
          else
            (case compileRuleNode kebabCache (resolveSelector selector childKey) nestedStyle
                    (depth + 1) fmt isOmitted bodyParts of
               (bodyParts', kebabCache1) \<Rightarrow>
                 inlineLoop kebabCache1 selector depth fmt isOmitted childKeys bodyParts')
      | _ \<Rightarrow> inlineLoop kebabCache selector depth fmt isOmitted childKeys bodyParts)"
| "compileAtRule kebabCache name style parentSelector depth fmt isOmitted =
     (case collectDeclarations kebabCache (getProp style ''$'') of
        (decls, kebabCache1) \<Rightarrow>
          (case atLoop kebabCache1 parentSelector depth fmt isOmitted style
                  (if decls \<noteq> [] then writeDeclarations [] decls (depth + 1) fmt else []) of
             (bodyParts, kebabCache2) \<Rightarrow>
               (wrapAtRule name (concat bodyParts) depth fmt, kebabCache2)))"
| "atLoop kebabCache parentSelector depth fmt isOmitted [] bodyParts = (bodyParts, kebabCache)"
| "atLoop kebabCache parentSelector depth fmt isOmitted ((key, child) # keys) bodyParts =
     (if key = [] \<or> key = ''$'' then
        atLoop kebabCache parentSelector depth fmt isOmitted keys bodyParts
      else case child of
        Obj childStyle \<Rightarrow>
          if firstCharIs key CHR ''@'' then
            (case compileAtRule kebabCache key childStyle parentSelector (depth + 1) fmt
                    isOmitted of
               (nestedBody, kebabCache1) \<Rightarrow>
                 atLoop kebabCache1 parentSelector depth fmt isOmitted keys
                   (if nestedBody \<noteq> [] then bodyParts @ [nestedBody] else bodyParts))
          else if isOmitted (resolveSelector parentSelector key) then
            atLoop kebabCache parentSelector depth fmt isOmitted keys bodyParts
          else
            (case compileRuleNode kebabCache (resolveSelector parentSelector key) childStyle
                    (depth + 1) fmt isOmitted bodyParts of
               (bodyParts', kebabCache1) \<Rightarrow>
                 atLoop kebabCache1 parentSelector depth fmt isOmitted keys bodyParts')
      | _ \<Rightarrow> atLoop kebabCache parentSelector depth fmt isOmitted keys bodyParts)"
  by pat_completeness auto
termination
  apply (relation "measure (\<lambda>x. case x of
      Inl (Inl (c, sel, style, r)) \<Rightarrow> 2 * size_list (size_prod (\<lambda>_. 0) size) style + 1
    | Inl (Inr (c, sel, d, f, om, keys, r)) \<Rightarrow> 2 * size_list (size_prod (\<lambda>_. 0) size) keys
    | Inr (Inl (c, sel, d, f, om, keys, r)) \<Rightarrow> 2 * size_list (size_prod (\<lambda>_. 0) size) keys
    | Inr (Inr (Inl (c, name, style, r))) \<Rightarrow> 2 * size_list (size_prod (\<lambda>_. 0) size) style + 1
    | Inr (Inr (Inr (c, sel, d, f, om, keys, r))) \<Rightarrow> 2 * size_list (size_prod (\<lambda>_. 0) size) keys)")
  apply simp_all
  done

fun styleLoop ::
    "cache \<Rightarrow> format \<Rightarrow> (string \<Rightarrow> bool) \<Rightarrow> object \<Rightarrow> string list \<Rightarrow> string list \<times> cache" where
  "styleLoop kebabCache fmt isOmitted [] out = (out, kebabCache)"
| "styleLoop kebabCache fmt isOmitted ((key, child) # keys) out =
     (if key = [] \<or> key = ''$'' then styleLoop kebabCache fmt isOmitted keys out
      else case child of
        Obj childStyle \<Rightarrow>
          if firstCharIs key CHR ''@'' then
            (case compileAtRule kebabCache key childStyle [] 0 fmt isOmitted of
               (body, kebabCache1) \<Rightarrow>
                 styleLoop kebabCache1 fmt isOmitted keys
                   (if body \<noteq> [] then out @ [body] else out))
          else if isOmitted (resolveSelector [] key) then
            styleLoop kebabCache fmt isOmitted keys out
          else
            (case compileRuleNode kebabCache (resolveSelector [] key) childStyle 0 fmt
                    isOmitted out of
               (out', kebabCache1) \<Rightarrow> styleLoop kebabCache1 fmt isOmitted keys out')
      | _ \<Rightarrow> styleLoop kebabCache fmt isOmitted keys out)"

text \<open>
  \<^verbatim>\<open>compileStyle\<close> returns the stylesheet and leaves the cache behind; \<open>None\<close>
  is an exception out of \<^verbatim>\<open>createOmitMatcher\<close>. A style that is not an object is
  falsy or has no object under any key, and compiles to the empty string.
\<close>

definition compileStyle ::
    "cache \<Rightarrow> jsval \<Rightarrow> CompileOptionsInput \<Rightarrow> (string \<times> cache) option" where
  "compileStyle kebabCache style options =
     (case style of
        Obj keys \<Rightarrow>
          (let opts = normalizeOptions options;
               fmt = (case format opts of None \<Rightarrow> Default | Some f \<Rightarrow> f)
           in case createOmitMatcher (omit opts) of
                None \<Rightarrow> None
              | Some isOmitted \<Rightarrow>
                  (case styleLoop kebabCache fmt isOmitted keys [] of
                     (out, kebabCache') \<Rightarrow> Some (concat out, kebabCache')))
      | _ \<Rightarrow> Some ([], kebabCache))"

text \<open>The stylesheet of a run, without the cache.\<close>

definition css :: "(string \<times> cache) option \<Rightarrow> string option" where
  "css run = map_option fst run"


section \<open>What the walker computes\<close>

text \<open>
  The definitions of this section are not translations of source functions. They
  state, without the cache and without the accumulating array, what the walker
  pushes, and, apart from that, which property names it hands to \<^verbatim>\<open>kebabCase\<close>.
  \<open>walker_denotation\<close> and \<open>walker_cache\<close> below prove that the source functions
  compute exactly this, and the properties of the compiler are then proved by
  induction on \<open>walk\<close> and \<open>touched\<close>.

  A cache is consistent when every entry holds what the loop of \<^verbatim>\<open>kebabCase\<close>
  computes for its key. \<open>declarationsOf\<close> is the list \<^verbatim>\<open>collectDeclarations\<close>
  returns, \<open>ownRule\<close> and \<open>ownDeclarations\<close> are the pieces a rule node and an
  at-rule node push for their own \<^verbatim>\<open>$\<close> block, and \<open>walk\<close> is the pieces pushed
  for the keys of a node.
\<close>

definition cacheOk :: "cache \<Rightarrow> bool" where
  "cacheOk kebabCache = (\<forall>key cached. kebabCache key = Some cached \<longrightarrow> cached = kebabLoop key [])"

definition present :: "string \<times> jsval \<Rightarrow> bool" where
  "present kv = (snd kv \<noteq> Undefined \<and> snd kv \<noteq> Null)"

definition declarationsOf :: "jsval \<Rightarrow> declarations" where
  "declarationsOf props =
     (case props of
        Obj kvs \<Rightarrow> map (\<lambda>(k, v). (kebabLoop k [], toString v)) (filter present kvs)
      | _ \<Rightarrow> [])"

definition ownRule :: "string \<Rightarrow> object \<Rightarrow> nat \<Rightarrow> format \<Rightarrow> string list" where
  "ownRule selector style depth fmt =
     (if declarationsOf (getProp style ''$'') \<noteq> []
      then writeRule [] selector (declarationsOf (getProp style ''$'')) depth fmt else [])"

definition ownDeclarations :: "object \<Rightarrow> nat \<Rightarrow> format \<Rightarrow> string list" where
  "ownDeclarations style depth fmt =
     writeDeclarations [] (declarationsOf (getProp style ''$'')) depth fmt"

function walk :: "string \<Rightarrow> nat \<Rightarrow> format \<Rightarrow> (string \<Rightarrow> bool) \<Rightarrow> object \<Rightarrow> string list" where
  "walk selector depth fmt isOmitted [] = []"
| "walk selector depth fmt isOmitted ((key, child) # keys) =
     (if key = [] \<or> key = ''$'' then walk selector depth fmt isOmitted keys
      else case child of
        Obj childStyle \<Rightarrow>
          if firstCharIs key CHR ''@'' then
            (if concat (ownDeclarations childStyle (depth + 1) fmt
                        @ walk selector (depth + 1) fmt isOmitted childStyle) \<noteq> []
             then [wrapAtRule key
                     (concat (ownDeclarations childStyle (depth + 1) fmt
                              @ walk selector (depth + 1) fmt isOmitted childStyle)) depth fmt]
             else [])
            @ walk selector depth fmt isOmitted keys
          else if isOmitted (resolveSelector selector key) then
            walk selector depth fmt isOmitted keys
          else
            ownRule (resolveSelector selector key) childStyle depth fmt
            @ walk (resolveSelector selector key) depth fmt isOmitted childStyle
            @ walk selector depth fmt isOmitted keys
      | _ \<Rightarrow> walk selector depth fmt isOmitted keys)"
  by pat_completeness auto
termination
  by (relation "measure (\<lambda>(sel, d, f, om, keys). size_list (size_prod (\<lambda>_. 0) size) keys)") simp_all

text \<open>
  The property names \<^verbatim>\<open>collectDeclarations\<close> hands to \<^verbatim>\<open>kebabCase\<close> for a block, the
  names the walker hands over for the keys of a node, in the order of the calls, and
  the cache after a run of calls.
\<close>

definition touchedBlock :: "jsval \<Rightarrow> string list" where
  "touchedBlock props = (case props of Obj kvs \<Rightarrow> map fst (filter present kvs) | _ \<Rightarrow> [])"

function touched :: "string \<Rightarrow> (string \<Rightarrow> bool) \<Rightarrow> object \<Rightarrow> string list" where
  "touched selector isOmitted [] = []"
| "touched selector isOmitted ((key, child) # keys) =
     (if key = [] \<or> key = ''$'' then touched selector isOmitted keys
      else case child of
        Obj childStyle \<Rightarrow>
          if firstCharIs key CHR ''@'' then
            touchedBlock (getProp childStyle ''$'') @ touched selector isOmitted childStyle
            @ touched selector isOmitted keys
          else if isOmitted (resolveSelector selector key) then
            touched selector isOmitted keys
          else
            touchedBlock (getProp childStyle ''$'')
            @ touched (resolveSelector selector key) isOmitted childStyle
            @ touched selector isOmitted keys
      | _ \<Rightarrow> touched selector isOmitted keys)"
  by pat_completeness auto
termination
  by (relation "measure (\<lambda>(sel, om, keys). size_list (size_prod (\<lambda>_. 0) size) keys)") simp_all

definition cacheWith :: "cache \<Rightarrow> string list \<Rightarrow> cache" where
  "cacheWith kebabCache names = foldl (\<lambda>c key. snd (kebabCase c key)) kebabCache names"

text \<open>
  The regular expression a glob compiles to, the predicate a pattern list compiles
  to, and the format and the patterns an option value stands for.
\<close>

definition atomsOf :: "string \<Rightarrow> regex" where
  "atomsOf glob = map (\<lambda>c. if c = CHR ''*'' then DotStar else Lit c) glob"

definition omitted :: "string list option \<Rightarrow> string \<Rightarrow> bool" where
  "omitted omitGlobs selector =
     (\<exists>glob \<in> set (case omitGlobs of None \<Rightarrow> [] | Some globs \<Rightarrow> globs).
        test (atomsOf glob) selector)"

definition formatOf :: "CompileOptionsInput \<Rightarrow> format" where
  "formatOf options = (case format (normalizeOptions options) of None \<Rightarrow> Default | Some f \<Rightarrow> f)"

definition omitOf :: "CompileOptionsInput \<Rightarrow> string list option" where
  "omitOf options = omit (normalizeOptions options)"


section \<open>Notions the properties are stated with\<close>

text \<open>
  A glob in the words of the specification: the pattern must span the whole
  selector, \<^verbatim>\<open>*\<close> stands for any run of characters that \<open>star\<close> admits (the empty
  run included), and every other character stands for itself.
\<close>

fun globMatch :: "(char \<Rightarrow> bool) \<Rightarrow> string \<Rightarrow> string \<Rightarrow> bool" where
  "globMatch star [] s = (s = [])"
| "globMatch star (p # ps) [] = (p = CHR ''*'' \<and> globMatch star ps [])"
| "globMatch star (p # ps) (x # s) =
     (if p = CHR ''*''
      then globMatch star ps (x # s) \<or> (star x \<and> globMatch star (p # ps) s)
      else x = p \<and> globMatch star ps s)"

text \<open>
  A node of a style tree is addressed by the keys on the way to it. \<open>replaceAt\<close>
  puts another value in the place of that node; \<open>selectorAt\<close> is the selector the
  walker has resolved when it reaches the node: an at-rule key leaves the selector
  as it is, any other key is resolved against it.
\<close>

fun replaceAt :: "string list \<Rightarrow> jsval \<Rightarrow> object \<Rightarrow> object" where
  "replaceAt [] new obj = obj"
| "replaceAt [k] new obj = map (\<lambda>(k', v). if k' = k then (k', new) else (k', v)) obj"
| "replaceAt (k # k2 # ks) new obj =
     map (\<lambda>(k', v).
            if k' = k
            then (k', case v of Obj sub \<Rightarrow> Obj (replaceAt (k2 # ks) new sub) | _ \<Rightarrow> v)
            else (k', v)) obj"

fun selectorAt :: "string \<Rightarrow> string list \<Rightarrow> string" where
  "selectorAt selector [] = selector"
| "selectorAt selector (k # ks) =
     selectorAt (if firstCharIs k CHR ''@'' then selector else resolveSelector selector k) ks"

text \<open>
  The resolved selectors of all selector-keyed object children below a node, in
  document order; at-rule children pass the selector of their parent on.
\<close>

function selectorsOf :: "string \<Rightarrow> object \<Rightarrow> string list" where
  "selectorsOf selector [] = []"
| "selectorsOf selector ((key, child) # keys) =
     (if key = [] \<or> key = ''$'' then selectorsOf selector keys
      else case child of
        Obj childStyle \<Rightarrow>
          if firstCharIs key CHR ''@''
          then selectorsOf selector childStyle @ selectorsOf selector keys
          else resolveSelector selector key
               # selectorsOf (resolveSelector selector key) childStyle
               @ selectorsOf selector keys
      | _ \<Rightarrow> selectorsOf selector keys)"
  by pat_completeness auto
termination
  by (relation "measure (\<lambda>(sel, keys). size_list (size_prod (\<lambda>_. 0) size) keys)") simp_all


fun wrapAtRules :: "string list \<Rightarrow> string \<Rightarrow> nat \<Rightarrow> format \<Rightarrow> string" where
  "wrapAtRules [] body depth fmt = body"
| "wrapAtRules (name # names) body depth fmt =
     wrapAtRule name (wrapAtRules names body (depth + 1) fmt) depth fmt"

text \<open>
  A tree without at-rules: no object sits under a key that starts with \<^verbatim>\<open>@\<close>, at any
  level. \<open>rulesBelow\<close> lists, in document order, the selector-keyed nodes below a node
  that are not excluded, each with its resolved selector and its declarations; what
  lies under an at-rule is left out.
\<close>

function atRuleFree :: "object \<Rightarrow> bool" where
  "atRuleFree [] = True"
| "atRuleFree ((key, child) # keys) =
     (if key = [] \<or> key = ''$'' then atRuleFree keys
      else case child of
        Obj childStyle \<Rightarrow> \<not> firstCharIs key CHR ''@'' \<and> atRuleFree childStyle \<and> atRuleFree keys
      | _ \<Rightarrow> atRuleFree keys)"
  by pat_completeness auto
termination
  by (relation "measure (size_list (size_prod (\<lambda>_. 0) size))") simp_all

function rulesBelow :: "string \<Rightarrow> (string \<Rightarrow> bool) \<Rightarrow> object \<Rightarrow> (string \<times> declarations) list" where
  "rulesBelow selector isOmitted [] = []"
| "rulesBelow selector isOmitted ((key, child) # keys) =
     (if key = [] \<or> key = ''$'' then rulesBelow selector isOmitted keys
      else case child of
        Obj childStyle \<Rightarrow>
          if firstCharIs key CHR ''@'' then rulesBelow selector isOmitted keys
          else if isOmitted (resolveSelector selector key) then rulesBelow selector isOmitted keys
          else (resolveSelector selector key,
                fst (collectDeclarations Map.empty (getProp childStyle ''$'')))
               # rulesBelow (resolveSelector selector key) isOmitted childStyle
               @ rulesBelow selector isOmitted keys
      | _ \<Rightarrow> rulesBelow selector isOmitted keys)"
  by pat_completeness auto
termination
  by (relation "measure (\<lambda>(sel, om, keys). size_list (size_prod (\<lambda>_. 0) size) keys)") simp_all

text \<open>A text with the characters of a set taken out.\<close>

definition without :: "char set \<Rightarrow> string \<Rightarrow> string" where
  "without W s = filter (\<lambda>c. c \<notin> W) s"


section \<open>The walker and its denotation\<close>

subsection \<open>kebabCase on a consistent cache\<close>

lemma kebabCase_ok:
  "cacheOk c \<Longrightarrow> fst (kebabCase c key) = kebabLoop key [] \<and> cacheOk (snd (kebabCase c key))"
  by (auto simp: kebabCase_def cacheOk_def Let_def split: option.splits)

lemma cacheAfter_ok: "cacheOk (cacheAfter h)"
  by (induction h) (simp_all add: cacheOk_def kebabCase_ok[unfolded cacheOk_def])

lemma collectLoop_ok:
  "cacheOk c \<Longrightarrow>
   fst (collectLoop c kvs entries)
     = entries @ map (\<lambda>(k, v). (kebabLoop k [], toString v)) (filter present kvs)
   \<and> cacheOk (snd (collectLoop c kvs entries))"
proof (induction kvs arbitrary: c entries)
  case Nil
  then show ?case by simp
next
  case (Cons kv kvs)
  obtain k v where kv: "kv = (k, v)" by (cases kv)
  show ?case
  proof (cases "v = Undefined \<or> v = Null")
    case True
    with Cons kv show ?thesis by (auto simp: present_def)
  next
    case False
    obtain name c' where kc: "kebabCase c k = (name, c')" by (cases "kebabCase c k")
    with kebabCase_ok[OF Cons.prems, of k] have "name = kebabLoop k []" "cacheOk c'" by simp_all
    with Cons.IH[of c'] kv kc False show ?thesis by (simp add: present_def)
  qed
qed

lemma collectDeclarations_ok:
  "cacheOk c \<Longrightarrow>
   fst (collectDeclarations c props) = declarationsOf props
   \<and> cacheOk (snd (collectDeclarations c props))"
  by (cases props) (simp_all add: collectDeclarations_def declarationsOf_def collectLoop_ok)

lemma collectDeclarations_run:
  "cacheOk c \<Longrightarrow>
   \<exists>c'. collectDeclarations c props = (declarationsOf props, c') \<and> cacheOk c'"
  using collectDeclarations_ok[of c props]
  by (cases "collectDeclarations c props") simp

subsection \<open>Renderer\<close>

lemma foldl_push:
  "foldl (\<lambda>acc (prop, val). acc @ f prop val) out ds
     = out @ concat (map (\<lambda>(prop, val). f prop val) ds)"
  by (induction ds arbitrary: out) auto

lemma writeRule_eq:
  "writeRule out sel ds d fmt =
     out @ (if fmt = Pretty
            then [indent d fmt, sel, '' {\<newline>'']
                 @ concat (map (\<lambda>(prop, val). [indent (d + 1) fmt, prop, '': '', val, '';\<newline>'']) ds)
                 @ [indent d fmt, ''}\<newline>'']
            else [sel, ''{''] @ concat (map (\<lambda>(prop, val). [prop, '':'', val, '';'']) ds)
                 @ [''}''] @ (if fmt = Default then [''\<newline>''] else []))"
  by (simp add: writeRule_def Let_def foldl_push)

lemma writeDeclarations_eq:
  "writeDeclarations out ds d fmt =
     out @ (if fmt = Pretty
            then concat (map (\<lambda>(prop, val). [indent d fmt, prop, '': '', val, '';\<newline>'']) ds)
            else concat (map (\<lambda>(prop, val). [prop, '':'', val, '';'']) ds))"
  by (simp add: writeDeclarations_def foldl_push)

lemma writeRule_append: "writeRule out sel ds d fmt = out @ writeRule [] sel ds d fmt"
  by (simp add: writeRule_eq)

lemma writeDeclarations_append:
  "writeDeclarations out ds d fmt = out @ writeDeclarations [] ds d fmt"
  by (simp add: writeDeclarations_eq)

lemma writeDeclarations_Nil: "writeDeclarations out [] d fmt = out"
  by (simp add: writeDeclarations_def)

lemma wrapAtRule_empty_iff: "wrapAtRule name body d fmt = [] \<longleftrightarrow> body = []"
  by (simp add: wrapAtRule_def Let_def)

lemma bare_if:
  "(if ds \<noteq> [] then writeDeclarations [] ds d fmt else []) = writeDeclarations [] ds d fmt"
  by (simp add: writeDeclarations_Nil)

subsection \<open>Tree walker\<close>

lemma run_pair: "fst r = a \<and> cacheOk (snd r) \<Longrightarrow> \<exists>b. r = (a, b) \<and> cacheOk b"
  by (cases r) simp

declare compileRuleNode.simps [simp del] compileAtRule.simps [simp del]

lemma walker_denotation:
  "cacheOk c \<Longrightarrow>
     fst (compileRuleNode c selector style depth fmt isOmitted out)
       = out @ ownRule selector style depth fmt @ walk selector depth fmt isOmitted style
     \<and> cacheOk (snd (compileRuleNode c selector style depth fmt isOmitted out))"
  "cacheOk c \<Longrightarrow>
     fst (ruleLoop c selector depth fmt isOmitted keys out)
       = out @ walk selector depth fmt isOmitted keys
     \<and> cacheOk (snd (ruleLoop c selector depth fmt isOmitted keys out))"
  "cacheOk c \<Longrightarrow>
     fst (inlineLoop c selector depth fmt isOmitted keys out)
       = out @ walk selector (depth + 1) fmt isOmitted keys
     \<and> cacheOk (snd (inlineLoop c selector depth fmt isOmitted keys out))"
  "cacheOk c \<Longrightarrow>
     fst (compileAtRule c name style selector depth fmt isOmitted)
       = wrapAtRule name (concat (ownDeclarations style (depth + 1) fmt
                                  @ walk selector (depth + 1) fmt isOmitted style)) depth fmt
     \<and> cacheOk (snd (compileAtRule c name style selector depth fmt isOmitted))"
  "cacheOk c \<Longrightarrow>
     fst (atLoop c selector depth fmt isOmitted keys out)
       = out @ walk selector (depth + 1) fmt isOmitted keys
     \<and> cacheOk (snd (atLoop c selector depth fmt isOmitted keys out))"
proof (induction c selector style depth fmt isOmitted out
         and c selector depth fmt isOmitted keys out
         and c selector depth fmt isOmitted keys out
         and c name style selector depth fmt isOmitted
         and c selector depth fmt isOmitted keys out
       rule: compileRuleNode_ruleLoop_inlineLoop_compileAtRule_atLoop.induct)
  case (1 c selector style depth fmt isOmitted out)
  from collectDeclarations_run[OF "1.prems", of "getProp style ''$''"]
  obtain c1 where cd: "collectDeclarations c (getProp style ''$'') = (declarationsOf (getProp style ''$''), c1)"
    and c1: "cacheOk c1" by blast
  from "1.IH"[OF cd[symmetric] c1] cd show ?case
    by (simp add: compileRuleNode.simps ownRule_def writeRule_append[of out])
next
  case (2 c selector depth fmt isOmitted out)
  then show ?case by simp
next
  case (3 c selector depth fmt isOmitted key child keys out)
  show ?case
  proof (cases "key = [] \<or> key = ''$''")
    case True
    with "3.IH"(1) "3.prems" show ?thesis by simp
  next
    case nk: False
    show ?thesis
    proof (cases child)
      case Undefined
      with "3.IH"(2)[OF nk] "3.prems" nk show ?thesis by simp
    next
      case Null
      with "3.IH"(3)[OF nk] "3.prems" nk show ?thesis by simp
    next
      case (Prim s)
      with "3.IH"(4)[OF nk] "3.prems" nk show ?thesis by simp
    next
      case (Obj cs)
      show ?thesis
      proof (cases "firstCharIs key CHR ''@''")
        case at: True
        from collectDeclarations_run[OF "3.prems", of "getProp cs ''$''"]
        obtain c1 where cd: "collectDeclarations c (getProp cs ''$'') = (declarationsOf (getProp cs ''$''), c1)"
          and c1: "cacheOk c1" by blast
        from run_pair[OF "3.IH"(5)[OF nk Obj at cd[symmetric] c1]]
        obtain c2 where il:
          "inlineLoop c1 selector depth fmt isOmitted cs
             (if declarationsOf (getProp cs ''$'') \<noteq> []
              then writeDeclarations [] (declarationsOf (getProp cs ''$'')) (depth + 1) fmt
              else [])
           = ((if declarationsOf (getProp cs ''$'') \<noteq> []
              then writeDeclarations [] (declarationsOf (getProp cs ''$'')) (depth + 1) fmt
              else []) @ walk selector (depth + 1) fmt isOmitted cs, c2)"
          and c2: "cacheOk c2" by blast
        from "3.IH"(6)[OF nk Obj at cd[symmetric] il[symmetric] c2] nk Obj at cd il
        show ?thesis by (simp add: bare_if ownDeclarations_def del: concat_eq_Nil_conv cong: if_cong split: if_splits)
      next
        case nat: False
        show ?thesis
        proof (cases "isOmitted (resolveSelector selector key)")
          case True
          with "3.IH"(7)[OF nk Obj nat] "3.prems" nk Obj nat show ?thesis by simp
        next
          case no: False
          from run_pair[OF "3.IH"(8)[OF nk Obj nat no "3.prems"]]
          obtain c1 where cr:
            "compileRuleNode c (resolveSelector selector key) cs depth fmt isOmitted out
               = (out @ ownRule (resolveSelector selector key) cs depth fmt
                    @ walk (resolveSelector selector key) depth fmt isOmitted cs, c1)"
            and c1: "cacheOk c1" by blast
          from "3.IH"(9)[OF nk Obj nat no cr[symmetric] c1] nk Obj nat no cr
          show ?thesis by simp
        qed
      qed
    qed
  qed
next
  case (4 c selector depth fmt isOmitted bodyParts)
  then show ?case by simp
next
  case (5 c selector depth fmt isOmitted key child keys out)
  show ?case
  proof (cases "key = [] \<or> key = ''$''")
    case True
    with "5.IH"(1) "5.prems" show ?thesis by simp
  next
    case nk: False
    show ?thesis
    proof (cases child)
      case Undefined
      with "5.IH"(2)[OF nk] "5.prems" nk show ?thesis by simp
    next
      case Null
      with "5.IH"(3)[OF nk] "5.prems" nk show ?thesis by simp
    next
      case (Prim s)
      with "5.IH"(4)[OF nk] "5.prems" nk show ?thesis by simp
    next
      case (Obj cs)
      show ?thesis
      proof (cases "firstCharIs key CHR ''@''")
        case at: True
        from run_pair[OF "5.IH"(5)[OF nk Obj at "5.prems"]]
        obtain c1 where ca:
          "compileAtRule c key cs selector (depth + 1) fmt isOmitted
             = (wrapAtRule key
                  (concat (ownDeclarations cs (depth + 1 + 1) fmt
                           @ walk selector (depth + 1 + 1) fmt isOmitted cs)) (depth + 1) fmt, c1)"
          and c1: "cacheOk c1" by blast
        from "5.IH"(6)[OF nk Obj at ca[symmetric] c1] nk Obj at ca
        show ?thesis by (simp add: wrapAtRule_empty_iff del: concat_eq_Nil_conv cong: if_cong split: if_splits)
      next
        case nat: False
        show ?thesis
        proof (cases "isOmitted (resolveSelector selector key)")
          case True
          with "5.IH"(7)[OF nk Obj nat] "5.prems" nk Obj nat show ?thesis by simp
        next
          case no: False
          from run_pair[OF "5.IH"(8)[OF nk Obj nat no "5.prems"]]
          obtain c1 where cr:
            "compileRuleNode c (resolveSelector selector key) cs (depth + 1) fmt isOmitted out
               = (out @ ownRule (resolveSelector selector key) cs (depth + 1) fmt
                    @ walk (resolveSelector selector key) (depth + 1) fmt isOmitted cs, c1)"
            and c1: "cacheOk c1" by blast
          from "5.IH"(9)[OF nk Obj nat no cr[symmetric] c1] nk Obj nat no cr
          show ?thesis by simp
        qed
      qed
    qed
  qed
next
  case (6 c name style selector depth fmt isOmitted)
  from collectDeclarations_run[OF "6.prems", of "getProp style ''$''"]
  obtain c1 where cd: "collectDeclarations c (getProp style ''$'') = (declarationsOf (getProp style ''$''), c1)"
    and c1: "cacheOk c1" by blast
  from "6.IH"[OF cd[symmetric] c1] cd show ?case
    by (auto simp: compileAtRule.simps ownDeclarations_def bare_if split: prod.splits)
next
  case (7 c selector depth fmt isOmitted bodyParts)
  then show ?case by simp
next
  case (8 c selector depth fmt isOmitted key child keys out)
  show ?case
  proof (cases "key = [] \<or> key = ''$''")
    case True
    with "8.IH"(1) "8.prems" show ?thesis by simp
  next
    case nk: False
    show ?thesis
    proof (cases child)
      case Undefined
      with "8.IH"(2)[OF nk] "8.prems" nk show ?thesis by simp
    next
      case Null
      with "8.IH"(3)[OF nk] "8.prems" nk show ?thesis by simp
    next
      case (Prim s)
      with "8.IH"(4)[OF nk] "8.prems" nk show ?thesis by simp
    next
      case (Obj cs)
      show ?thesis
      proof (cases "firstCharIs key CHR ''@''")
        case at: True
        from run_pair[OF "8.IH"(5)[OF nk Obj at "8.prems"]]
        obtain c1 where ca:
          "compileAtRule c key cs selector (depth + 1) fmt isOmitted
             = (wrapAtRule key
                  (concat (ownDeclarations cs (depth + 1 + 1) fmt
                           @ walk selector (depth + 1 + 1) fmt isOmitted cs)) (depth + 1) fmt, c1)"
          and c1: "cacheOk c1" by blast
        from "8.IH"(6)[OF nk Obj at ca[symmetric] c1] nk Obj at ca
        show ?thesis by (simp add: wrapAtRule_empty_iff del: concat_eq_Nil_conv cong: if_cong split: if_splits)
      next
        case nat: False
        show ?thesis
        proof (cases "isOmitted (resolveSelector selector key)")
          case True
          with "8.IH"(7)[OF nk Obj nat] "8.prems" nk Obj nat show ?thesis by simp
        next
          case no: False
          from run_pair[OF "8.IH"(8)[OF nk Obj nat no "8.prems"]]
          obtain c1 where cr:
            "compileRuleNode c (resolveSelector selector key) cs (depth + 1) fmt isOmitted out
               = (out @ ownRule (resolveSelector selector key) cs (depth + 1) fmt
                    @ walk (resolveSelector selector key) (depth + 1) fmt isOmitted cs, c1)"
            and c1: "cacheOk c1" by blast
          from "8.IH"(9)[OF nk Obj nat no cr[symmetric] c1] nk Obj nat no cr
          show ?thesis by simp
        qed
      qed
    qed
  qed
qed

lemma styleLoop_denotation:
  "cacheOk c \<Longrightarrow>
     fst (styleLoop c fmt isOmitted keys out) = out @ walk [] 0 fmt isOmitted keys
     \<and> cacheOk (snd (styleLoop c fmt isOmitted keys out))"
proof (induction keys arbitrary: c out)
  case Nil
  then show ?case by simp
next
  case (Cons kv keys)
  obtain key child where kv: "kv = (key, child)" by (cases kv)
  show ?case
  proof (cases "key = [] \<or> key = ''$''")
    case True
    with Cons kv show ?thesis by simp
  next
    case nk: False
    show ?thesis
    proof (cases child)
      case (Obj cs)
      show ?thesis
      proof (cases "firstCharIs key CHR ''@''")
        case at: True
        from run_pair[OF walker_denotation(4)[OF Cons.prems]]
        obtain c1 where ca:
          "compileAtRule c key cs [] 0 fmt isOmitted
             = (wrapAtRule key (concat (ownDeclarations cs (0 + 1) fmt
                                        @ walk [] (0 + 1) fmt isOmitted cs)) 0 fmt, c1)"
          and c1: "cacheOk c1" by blast
        from Cons.IH[OF c1] kv nk Obj at ca show ?thesis
          by (simp add: wrapAtRule_empty_iff del: concat_eq_Nil_conv cong: if_cong split: if_splits)
      next
        case nat: False
        show ?thesis
        proof (cases "isOmitted (resolveSelector [] key)")
          case True
          with Cons kv nk Obj nat show ?thesis by simp
        next
          case no: False
          from run_pair[OF walker_denotation(1)[OF Cons.prems]]
          obtain c1 where cr:
            "compileRuleNode c (resolveSelector [] key) cs 0 fmt isOmitted out
               = (out @ ownRule (resolveSelector [] key) cs 0 fmt
                    @ walk (resolveSelector [] key) 0 fmt isOmitted cs, c1)"
            and c1: "cacheOk c1" by blast
          from Cons.IH[OF c1] kv nk Obj nat no cr show ?thesis by simp
        qed
      qed
    qed (use Cons kv nk in simp_all)
  qed
qed

lemma compileAtRule_run:
  "fst (compileAtRule (cacheAfter earlier) name style selector depth fmt isOmitted)
     = wrapAtRule name (concat (ownDeclarations style (depth + 1) fmt
                                @ walk selector (depth + 1) fmt isOmitted style)) depth fmt"
  using walker_denotation(4)[OF cacheAfter_ok] by simp

lemma compileRuleNode_run:
  "fst (compileRuleNode (cacheAfter earlier) selector style depth fmt isOmitted out)
     = out @ ownRule selector style depth fmt @ walk selector depth fmt isOmitted style"
  using walker_denotation(1)[OF cacheAfter_ok] by simp

lemma ruleLoop_run:
  "fst (ruleLoop (cacheAfter earlier) selector depth fmt isOmitted keys out)
     = out @ walk selector depth fmt isOmitted keys"
  using walker_denotation(2)[OF cacheAfter_ok] by simp

lemma atLoop_run:
  "fst (atLoop (cacheAfter earlier) selector depth fmt isOmitted keys out)
     = out @ walk selector (depth + 1) fmt isOmitted keys"
  using walker_denotation(5)[OF cacheAfter_ok] by simp

lemma inlineLoop_run:
  "fst (inlineLoop (cacheAfter earlier) selector depth fmt isOmitted keys out)
     = out @ walk selector (depth + 1) fmt isOmitted keys"
  using walker_denotation(3)[OF cacheAfter_ok] by simp

lemma styleLoop_run:
  "fst (styleLoop (cacheAfter earlier) fmt isOmitted keys out) = out @ walk [] 0 fmt isOmitted keys"
  using styleLoop_denotation[OF cacheAfter_ok] by simp

lemma collectDeclarations_run':
  "fst (collectDeclarations (cacheAfter earlier) props) = declarationsOf props"
  using collectDeclarations_ok[OF cacheAfter_ok] by simp

subsection \<open>Construction of the regular expressions\<close>

lemma parseAtoms_escaped:
  "regexSpecial d \<or> d = CHR ''*'' \<Longrightarrow>
   parseAtoms (backslash # d # rest) = map_option ((#) (Lit d)) (parseAtoms rest)"
  by simp

lemma parseAtoms_dotstar:
  "parseAtoms (CHR ''.'' # CHR ''*'' # rest) = map_option ((#) DotStar) (parseAtoms rest)"
  by (simp add: backslash_def)

lemma parseAtoms_plain:
  "\<not> regexSpecial c \<Longrightarrow> c \<noteq> CHR ''*'' \<Longrightarrow>
   parseAtoms (c # rest) = map_option ((#) (Lit c)) (parseAtoms rest)"
  by (cases rest) (auto simp: regexSpecial_def)

lemma parseAtoms_glob:
  "parseAtoms (replaceStars (escapeSpecials glob)) = Some (atomsOf glob)"
proof (induction glob)
  case Nil
  show ?case by (simp add: replaceStars_def escapeSpecials_def atomsOf_def)
next
  case (Cons c glob)
  have split: "replaceStars (escapeSpecials (c # glob))
      = replaceStars (if regexSpecial c then [backslash, c] else [c])
        @ replaceStars (escapeSpecials glob)"
    by (simp add: replaceStars_def escapeSpecials_def)
  show ?case
  proof (cases "regexSpecial c")
    case True
    then have "c \<noteq> CHR ''*''" by (auto simp: regexSpecial_def backslash_def)
    with True Cons split show ?thesis
      by (simp add: replaceStars_def atomsOf_def backslash_def)
  next
    case ns: False
    show ?thesis
    proof (cases "c = CHR ''*''")
      case True
      with ns Cons split show ?thesis
        by (simp add: replaceStars_def atomsOf_def backslash_def)
    next
      case False
      with ns Cons split show ?thesis
        by (simp add: replaceStars_def atomsOf_def parseAtoms_plain)
    qed
  qed
qed

lemma globToRegex_atoms: "globToRegex glob = Some (atomsOf glob)"
  by (simp add: globToRegex_def newRegExp_def Let_def butlast_append parseAtoms_glob)

lemma mapGlobToRegex_atoms: "mapGlobToRegex globs = Some (map atomsOf globs)"
  by (induction globs) (simp_all add: globToRegex_atoms)

lemma createOmitMatcher_omitted: "createOmitMatcher omitGlobs = Some (omitted omitGlobs)"
  by (auto simp: createOmitMatcher_def mapGlobToRegex_atoms omitted_def list_ex_iff fun_eq_iff
           split: option.splits)

subsection \<open>compileStyle\<close>

lemma compileStyle_denotation:
  "cacheOk c \<Longrightarrow>
   css (compileStyle c (Obj keys) options)
     = Some (concat (walk [] 0 (formatOf options) (omitted (omitOf options)) keys))"
  using styleLoop_denotation[of c "formatOf options" "omitted (omitOf options)" keys "[]"]
  by (auto simp: compileStyle_def css_def Let_def createOmitMatcher_omitted formatOf_def omitOf_def
        split: prod.splits)

lemma compileStyle_run:
  assumes "cacheOk c"
  shows "\<exists>c'. compileStyle c style options
            = Some (case style of
                      Obj keys \<Rightarrow> concat (walk [] 0 (formatOf options) (omitted (omitOf options)) keys)
                    | _ \<Rightarrow> [], c')
          \<and> cacheOk c'"
proof (cases style)
  case (Obj keys)
  from run_pair[OF styleLoop_denotation[OF assms, of "formatOf options" "omitted (omitOf options)" keys "[]"]]
  obtain c' where "styleLoop c (formatOf options) (omitted (omitOf options)) keys []
                    = ([] @ walk [] 0 (formatOf options) (omitted (omitOf options)) keys, c')"
    and "cacheOk c'" by blast
  with Obj show ?thesis
    by (simp add: compileStyle_def Let_def createOmitMatcher_omitted formatOf_def omitOf_def)
qed (use assms in \<open>simp_all add: compileStyle_def\<close>)


section \<open>The calls of kebabCase\<close>

lemma cacheWith_Nil: "cacheWith c [] = c"
  by (simp add: cacheWith_def)

lemma cacheWith_append: "cacheWith c (xs @ ys) = cacheWith (cacheWith c xs) ys"
  by (simp add: cacheWith_def)

lemma cacheWith_Cons: "cacheWith c (x # xs) = cacheWith (snd (kebabCase c x)) xs"
  by (simp add: cacheWith_def)

lemma collectLoop_cache:
  "snd (collectLoop c kvs entries) = cacheWith c (map fst (filter present kvs))"
  by (induction kvs arbitrary: c entries)
     (auto simp: cacheWith_Nil cacheWith_Cons present_def split: prod.splits)

lemma collectDeclarations_cache:
  "snd (collectDeclarations c props) = cacheWith c (touchedBlock props)"
  by (cases props)
     (simp_all add: collectDeclarations_def touchedBlock_def collectLoop_cache cacheWith_Nil)

lemma walker_cache:
  "snd (compileRuleNode c selector style depth fmt isOmitted out)
     = cacheWith c (touchedBlock (getProp style ''$'') @ touched selector isOmitted style)"
  "snd (ruleLoop c selector depth fmt isOmitted keys out)
     = cacheWith c (touched selector isOmitted keys)"
  "snd (inlineLoop c selector depth fmt isOmitted keys out)
     = cacheWith c (touched selector isOmitted keys)"
  "snd (compileAtRule c name style selector depth fmt isOmitted)
     = cacheWith c (touchedBlock (getProp style ''$'') @ touched selector isOmitted style)"
  "snd (atLoop c selector depth fmt isOmitted keys out)
     = cacheWith c (touched selector isOmitted keys)"
proof (induction c selector style depth fmt isOmitted out
         and c selector depth fmt isOmitted keys out
         and c selector depth fmt isOmitted keys out
         and c name style selector depth fmt isOmitted
         and c selector depth fmt isOmitted keys out
       rule: compileRuleNode_ruleLoop_inlineLoop_compileAtRule_atLoop.induct)
  case (1 c selector style depth fmt isOmitted out)
  obtain ds c1 where cd: "collectDeclarations c (getProp style ''$'') = (ds, c1)"
    by (cases "collectDeclarations c (getProp style ''$'')")
  with collectDeclarations_cache[of c "getProp style ''$''"]
  have c1: "c1 = cacheWith c (touchedBlock (getProp style ''$''))" by simp
  from "1.IH"[OF cd[symmetric]] cd c1 show ?case
    by (simp add: compileRuleNode.simps cacheWith_append)
next
  case (2 c selector depth fmt isOmitted out)
  show ?case by (simp add: cacheWith_Nil)
next
  case (3 c selector depth fmt isOmitted key child keys out)
  show ?case
  proof (cases "key = [] \<or> key = ''$''")
    case True
    with "3.IH"(1) show ?thesis by simp
  next
    case nk: False
    show ?thesis
    proof (cases child)
      case (Obj cs)
      show ?thesis
      proof (cases "firstCharIs key CHR ''@''")
        case at: True
        obtain ds c1 where cd: "collectDeclarations c (getProp cs ''$'') = (ds, c1)"
          by (cases "collectDeclarations c (getProp cs ''$'')")
        with collectDeclarations_cache[of c "getProp cs ''$''"]
        have c1: "c1 = cacheWith c (touchedBlock (getProp cs ''$''))" by simp
        obtain bp c2 where il:
          "inlineLoop c1 selector depth fmt isOmitted cs
             (if ds \<noteq> [] then writeDeclarations [] ds (depth + 1) fmt else []) = (bp, c2)"
          by (cases "inlineLoop c1 selector depth fmt isOmitted cs
             (if ds \<noteq> [] then writeDeclarations [] ds (depth + 1) fmt else [])")
        with "3.IH"(5)[OF nk Obj at cd[symmetric]]
        have c2: "c2 = cacheWith c1 (touched selector isOmitted cs)" by simp
        from "3.IH"(6)[OF nk Obj at cd[symmetric] il[symmetric]] nk Obj at cd il c1 c2
        show ?thesis by (simp add: cacheWith_append)
      next
        case nat: False
        show ?thesis
        proof (cases "isOmitted (resolveSelector selector key)")
          case True
          with "3.IH"(7)[OF nk Obj nat] nk Obj nat show ?thesis by simp
        next
          case no: False
          obtain out' c1 where cr:
            "compileRuleNode c (resolveSelector selector key) cs depth fmt isOmitted out = (out', c1)"
            by (cases "compileRuleNode c (resolveSelector selector key) cs depth fmt isOmitted out")
          with "3.IH"(8)[OF nk Obj nat no]
          have c1: "c1 = cacheWith c (touchedBlock (getProp cs ''$'')
                                       @ touched (resolveSelector selector key) isOmitted cs)"
            by simp
          from "3.IH"(9)[OF nk Obj nat no cr[symmetric]] nk Obj nat no cr c1
          show ?thesis by (simp add: cacheWith_append)
        qed
      qed
    qed (use "3.IH"(2-4) nk in simp_all)
  qed
next
  case (4 c selector depth fmt isOmitted bodyParts)
  show ?case by (simp add: cacheWith_Nil)
next
  case (5 c selector depth fmt isOmitted key child keys out)
  show ?case
  proof (cases "key = [] \<or> key = ''$''")
    case True
    with "5.IH"(1) show ?thesis by simp
  next
    case nk: False
    show ?thesis
    proof (cases child)
      case (Obj cs)
      show ?thesis
      proof (cases "firstCharIs key CHR ''@''")
        case at: True
        obtain body c1 where ca:
          "compileAtRule c key cs selector (depth + 1) fmt isOmitted = (body, c1)"
          by (cases "compileAtRule c key cs selector (depth + 1) fmt isOmitted")
        with "5.IH"(5)[OF nk Obj at]
        have c1: "c1 = cacheWith c (touchedBlock (getProp cs ''$'')
                                     @ touched selector isOmitted cs)"
          by simp
        from "5.IH"(6)[OF nk Obj at ca[symmetric]] nk Obj at ca c1
        show ?thesis by (simp add: cacheWith_append)
      next
        case nat: False
        show ?thesis
        proof (cases "isOmitted (resolveSelector selector key)")
          case True
          with "5.IH"(7)[OF nk Obj nat] nk Obj nat show ?thesis by simp
        next
          case no: False
          obtain out' c1 where cr:
            "compileRuleNode c (resolveSelector selector key) cs (depth + 1) fmt isOmitted out
               = (out', c1)"
            by (cases "compileRuleNode c (resolveSelector selector key) cs (depth + 1) fmt
                         isOmitted out")
          with "5.IH"(8)[OF nk Obj nat no]
          have c1: "c1 = cacheWith c (touchedBlock (getProp cs ''$'')
                                       @ touched (resolveSelector selector key) isOmitted cs)"
            by simp
          from "5.IH"(9)[OF nk Obj nat no cr[symmetric]] nk Obj nat no cr c1
          show ?thesis by (simp add: cacheWith_append)
        qed
      qed
    qed (use "5.IH"(2-4) nk in simp_all)
  qed
next
  case (6 c name style selector depth fmt isOmitted)
  obtain ds c1 where cd: "collectDeclarations c (getProp style ''$'') = (ds, c1)"
    by (cases "collectDeclarations c (getProp style ''$'')")
  with collectDeclarations_cache[of c "getProp style ''$''"]
  have c1: "c1 = cacheWith c (touchedBlock (getProp style ''$''))" by simp
  from "6.IH"[OF cd[symmetric]] cd c1 show ?case
    by (auto simp: compileAtRule.simps cacheWith_append bare_if split: prod.splits)
next
  case (7 c selector depth fmt isOmitted bodyParts)
  show ?case by (simp add: cacheWith_Nil)
next
  case (8 c selector depth fmt isOmitted key child keys out)
  show ?case
  proof (cases "key = [] \<or> key = ''$''")
    case True
    with "8.IH"(1) show ?thesis by simp
  next
    case nk: False
    show ?thesis
    proof (cases child)
      case (Obj cs)
      show ?thesis
      proof (cases "firstCharIs key CHR ''@''")
        case at: True
        obtain body c1 where ca:
          "compileAtRule c key cs selector (depth + 1) fmt isOmitted = (body, c1)"
          by (cases "compileAtRule c key cs selector (depth + 1) fmt isOmitted")
        with "8.IH"(5)[OF nk Obj at]
        have c1: "c1 = cacheWith c (touchedBlock (getProp cs ''$'')
                                     @ touched selector isOmitted cs)"
          by simp
        from "8.IH"(6)[OF nk Obj at ca[symmetric]] nk Obj at ca c1
        show ?thesis by (simp add: cacheWith_append)
      next
        case nat: False
        show ?thesis
        proof (cases "isOmitted (resolveSelector selector key)")
          case True
          with "8.IH"(7)[OF nk Obj nat] nk Obj nat show ?thesis by simp
        next
          case no: False
          obtain out' c1 where cr:
            "compileRuleNode c (resolveSelector selector key) cs (depth + 1) fmt isOmitted out
               = (out', c1)"
            by (cases "compileRuleNode c (resolveSelector selector key) cs (depth + 1) fmt
                         isOmitted out")
          with "8.IH"(8)[OF nk Obj nat no]
          have c1: "c1 = cacheWith c (touchedBlock (getProp cs ''$'')
                                       @ touched (resolveSelector selector key) isOmitted cs)"
            by simp
          from "8.IH"(9)[OF nk Obj nat no cr[symmetric]] nk Obj nat no cr c1
          show ?thesis by (simp add: cacheWith_append)
        qed
      qed
    qed (use "8.IH"(2-4) nk in simp_all)
  qed
qed


lemma styleLoop_cache:
  "snd (styleLoop c fmt isOmitted keys out) = cacheWith c (touched [] isOmitted keys)"
proof (induction keys arbitrary: c out)
  case Nil
  show ?case by (simp add: cacheWith_Nil)
next
  case (Cons kv keys)
  obtain key child where kv: "kv = (key, child)" by (cases kv)
  show ?case
  proof (cases child)
    case (Obj cs)
    with Cons kv walker_cache(4)[of c key cs "[]" 0 fmt isOmitted]
         walker_cache(1)[of c "resolveSelector [] key" cs 0 fmt isOmitted out]
    show ?thesis by (auto simp: cacheWith_append split: prod.splits)
  qed (use Cons kv in simp_all)
qed

lemma compileStyle_full:
  assumes "cacheOk c"
  shows "compileStyle c (Obj keys) options
           = Some (concat (walk [] 0 (formatOf options) (omitted (omitOf options)) keys),
                   cacheWith c (touched [] (omitted (omitOf options)) keys))"
  using styleLoop_denotation[OF assms, of "formatOf options" "omitted (omitOf options)" keys "[]"]
        styleLoop_cache[of c "formatOf options" "omitted (omitOf options)" keys "[]"]
  by (auto simp: compileStyle_def Let_def createOmitMatcher_omitted formatOf_def omitOf_def
        split: prod.splits)

section \<open>Properties of the selector resolver\<close>

lemma takeWhile_take_length:
  "take (length (takeWhile P xs)) xs = takeWhile P xs"
  by (induction xs) simp_all

lemma drop_takeWhile_hit:
  "c \<in> set xs \<Longrightarrow>
   drop (length (takeWhile (\<lambda>x. x \<noteq> c) xs)) xs
     = c # drop (Suc (length (takeWhile (\<lambda>x. x \<noteq> c) xs))) xs"
  by (induction xs) auto

lemma substitute_no_amp:
  "CHR ''&'' \<notin> set xs \<Longrightarrow>
   concat (map (\<lambda>c. if c = CHR ''&'' then selector else [c]) xs) = xs"
  by (induction xs) auto

lemma substitute_split:
  assumes "CHR ''&'' \<in> set xs"
  shows "concat (map (\<lambda>c. if c = CHR ''&'' then selector else [c]) xs)
           = takeWhile (\<lambda>x. x \<noteq> CHR ''&'') xs @ selector
             @ concat (map (\<lambda>c. if c = CHR ''&'' then selector else [c])
                 (drop (Suc (length (takeWhile (\<lambda>x. x \<noteq> CHR ''&'') xs))) xs))"
  using assms by (induction xs) auto

lemma injectLoop_substitutes:
  "idx = indexOf template CHR ''&'' lastIdx \<Longrightarrow>
   injectLoop template selector acc lastIdx idx
     = acc @ concat (map (\<lambda>c. if c = CHR ''&'' then selector else [c]) (drop lastIdx template))"
proof (induction template selector acc lastIdx idx rule: injectLoop.induct)
  case (1 template selector acc lastIdx idx)
  show ?case
  proof (cases "CHR ''&'' \<in> set (drop lastIdx template)")
    case False
    with "1.prems" have "idx = None" by (simp add: indexOf_def)
    with False show ?thesis by (simp add: substitute_no_amp)
  next
    case True
    define n where "n = length (takeWhile (\<lambda>x. x \<noteq> CHR ''&'') (drop lastIdx template))"
    from True "1.prems" have idx: "idx = Some (lastIdx + n)" by (simp add: indexOf_def n_def)
    have sl: "slice template lastIdx (lastIdx + n)
                = takeWhile (\<lambda>x. x \<noteq> CHR ''&'') (drop lastIdx template)"
      by (simp add: slice_def n_def takeWhile_take_length)
    have dr: "drop (lastIdx + n + 1) template = drop (Suc n) (drop lastIdx template)"
      by (simp add: add.commute)
    from "1.IH"[OF idx refl]
    have "injectLoop template selector
            (acc @ slice template lastIdx (lastIdx + n) @ selector) (lastIdx + n + 1)
            (indexOf template CHR ''&'' (lastIdx + n + 1))
          = (acc @ slice template lastIdx (lastIdx + n) @ selector)
            @ concat (map (\<lambda>c. if c = CHR ''&'' then selector else [c])
                (drop (lastIdx + n + 1) template))" .
    with idx sl dr substitute_split[OF True, of selector] show ?thesis
      by (simp add: n_def)
  qed
qed

lemma injectSelector_substitutes:
  "injectSelector template selector
     = concat (map (\<lambda>c. if c = CHR ''&'' then selector else [c]) template)"
proof (cases "indexOf template CHR ''&'' 0")
  case None
  then have "CHR ''&'' \<notin> set template" by (simp add: indexOf_def split: if_splits)
  with None show ?thesis by (simp add: injectSelector_def substitute_no_amp)
next
  case (Some i)
  with injectLoop_substitutes[of "Some i" template 0 selector "[]"] show ?thesis
    by (simp add: injectSelector_def)
qed

lemma resolveSelector_eq:
  "resolveSelector parent key =
     (if CHR ''&'' \<in> set key
      then concat (map (\<lambda>c. if c = CHR ''&'' then parent else [c]) key)
      else if firstCharIs key CHR '':'' then parent @ key
      else if parent \<noteq> [] then parent @ '' '' @ key
      else key)"
  by (simp add: resolveSelector_def injectSelector_substitutes indexOf_def)

text \<open>
  Claim C3. The five composition laws of the resolver hold, and for every parent and
  every key that contains \<^verbatim>\<open>&\<close> the result is the key with each \<^verbatim>\<open>&\<close> replaced by
  the parent and nothing added; an empty parent leaves the empty string in its place.
\<close>

theorem resolveSelector_laws:
  "resolveSelector '''' ''a'' = ''a''
   \<and> resolveSelector ''#app'' ''a'' = ''#app a''
   \<and> resolveSelector ''#app'' '':hover'' = ''#app:hover''
   \<and> resolveSelector ''.btn'' ''&.primary'' = ''.btn.primary''
   \<and> resolveSelector ''X'' ''&-&'' = ''X-X''
   \<and> (CHR ''&'' \<in> set key \<longrightarrow>
        resolveSelector parent key
          = concat (map (\<lambda>c. if c = CHR ''&'' then parent else [c]) key))"
  by (simp add: resolveSelector_eq firstCharIs_def)

theorem resolveSelector_laws_witness:
  "CHR ''&'' \<in> set ''a > &:not(&)''
   \<and> resolveSelector ''.x'' ''a > &:not(&)'' = ''a > .x:not(.x)''
   \<and> resolveSelector [] ''a > &:not(&)'' = ''a > :not()''"
  using resolveSelector_laws[of "''a > &:not(&)''" "''.x''"]
        resolveSelector_laws[of "''a > &:not(&)''" "[]"]
  by simp

section \<open>Evaluating the source functions\<close>

text \<open>
  The rules that run the source functions, and the denotation, on a concrete input.
\<close>

lemmas source_simps =
  compileStyle_def css_def normalizeOptions_def createOmitMatcher_def globToRegex_def
  newRegExp_def escapeSpecials_def replaceStars_def regexSpecial_def backslash_def
  lineTerminator_def compileRuleNode.simps compileAtRule.simps collectDeclarations_def
  kebabCase_def getProp_def firstCharIs_def resolveSelector_def injectSelector_def indexOf_def
  slice_def writeRule_def writeDeclarations_def wrapAtRule_def indent_def Let_def
  char_of_def bit_Suc_0_iff

lemmas run_simps =
  resolveSelector_eq firstCharIs_def getProp_def declarationsOf_def present_def
  ownRule_def ownDeclarations_def writeRule_eq writeDeclarations_eq wrapAtRule_def indent_def
  formatOf_def omitOf_def normalizeOptions_def omitted_def atomsOf_def Let_def

text \<open>
  The source functions, evaluated as they are written, give what the tests of the
  repository for \<^verbatim>\<open>compileStyle\<close> expect.
\<close>

lemma test_pretty:
  "css (compileStyle Map.empty
          (Obj [(''#app'', Obj [(''$'', Obj [(''color'', Prim ''red'')]),
                                (''a'', Obj [(''$'', Obj [(''color'', Prim ''blue'')])])])])
          (Options \<lparr>omit = None, format = Some Pretty\<rparr>))
     = Some ''#app {\<newline>  color: red;\<newline>}\<newline>#app a {\<newline>  color: blue;\<newline>}\<newline>''"
  by (simp add: source_simps)

lemma test_glob:
  "css (compileStyle Map.empty
          (Obj [(''#app'', Obj [(''$'', Obj [(''color'', Prim ''black'')]),
                  (''.sections'', Obj [(''$'', Obj [(''display'', Prim ''grid'')]),
                      (''a'', Obj [(''$'', Obj [(''color'', Prim ''blue'')]),
                                   ('':hover'', Obj [(''$'', Obj [(''color'', Prim ''red'')])])])]),
                  (''.socials'', Obj [(''svg'', Obj [(''$'', Obj [(''fill'', Prim ''pink'')])])])])])
          (OmitArray [''#app .sections*'', ''#app .socials svg'']))
     = Some ''#app{color:black;}\<newline>''"
  by (simp add: source_simps)

lemma test_nested:
  "css (compileStyle Map.empty
          (Obj [(''.btn'', Obj [(''$'', Obj [(''padding'', Prim ''8px 12px'')]),
                                ('':hover'', Obj [(''$'', Obj [(''opacity'', Prim ''0.5'')])]),
                                (''&.primary'', Obj [(''$'', Obj [(''color'', Prim ''blue'')])])])])
          NoOptions)
     = Some (''.btn{padding:8px 12px;}\<newline>'' @ ''.btn:hover{opacity:0.5;}\<newline>''
             @ ''.btn.primary{color:blue;}\<newline>'')"
  by (simp add: source_simps)

lemma test_omit_exact:
  "css (compileStyle Map.empty
          (Obj [(''#app'', Obj [(''$'', Obj [(''color'', Prim ''black'')]),
                                (''a'', Obj [(''$'', Obj [(''color'', Prim ''blue'')])]),
                                (''.socket'', Obj [(''$'', Obj [(''color'', Prim ''gray'')])])])])
          (OmitArray [''#app .socket'', ''#app a'']))
     = Some ''#app{color:black;}\<newline>''"
  by (simp add: source_simps)

lemma test_omit_in_at_rule:
  "css (compileStyle Map.empty
          (Obj [(''@media (max-width: 600px)'',
                 Obj [(''#app'', Obj [(''$'', Obj [(''color'', Prim ''black'')]),
                                      (''a'', Obj [(''$'', Obj [(''color'', Prim ''blue'')])])])])])
          (OmitArray [''#app a'']))
     = Some ''@media (max-width: 600px){#app{color:black;}\<newline>}\<newline>''"
  by (simp add: source_simps)

lemma test_skip_empty:
  "css (compileStyle Map.empty
          (Obj [(''#app'', Obj [(''$'', Obj [(''color'', Undefined)]),
                                (''.child'', Obj [(''$'', Obj [(''color'', Undefined)])]),
                                (''@media (max-width: 800px)'',
                                 Obj [(''.nested'', Obj [(''$'', Obj [(''padding'', Undefined)])])])])])
          NoOptions)
     = Some []"
  by (simp add: source_simps)

lemma test_minify:
  "css (compileStyle Map.empty
          (Obj [(''#app'', Obj [(''$'', Obj [(''color'', Prim ''red'')])])])
          (Options \<lparr>omit = None, format = Some Minify\<rparr>))
     = Some ''#app{color:red;}''"
  by (simp add: source_simps)

lemma test_glob_only:
  "css (compileStyle Map.empty
          (Obj [(''#app'', Obj [(''$'', Obj [(''color'', Prim ''black'')]),
                                (''.socket'', Obj [(''$'', Obj [(''color'', Prim ''gray'')])]),
                                (''.socket-secondary'', Obj [(''$'', Obj [(''color'', Prim ''silver'')])]),
                                (''.banner'', Obj [(''$'', Obj [(''color'', Prim ''violet'')])])])])
          (OmitArray [''#app .socket*'']))
     = Some (''#app{color:black;}\<newline>'' @ ''#app .banner{color:violet;}\<newline>'')"
  by (simp add: source_simps)

text \<open>The wildcard scenario of the specification, on the source functions.\<close>

lemma test_wildcard:
  "map_option (\<lambda>isOmitted. map isOmitted
       [''#app .sections'', ''#app .sections a'', ''#app .sections a:hover'', ''#app .socials'',
        ''x#app .sections''])
     (createOmitMatcher (Some [''#app .sections*'']))
   = Some [True, True, True, False, False]"
  by (simp add: source_simps)


section \<open>Scenarios\<close>

text \<open>
  Claim C1. The style tree with one media query around one rule, compiled in the
  default format with nothing excluded (no options, an empty pattern list, or the
  default format named), gives the rule with its newline inside the braces of the
  at-rule and one newline after the closing brace, whatever the cache held before.
\<close>

theorem compileStyle_scenario2:
  "css (compileStyle (cacheAfter earlier)
          (Obj [(''@media (max-width: 600px)'',
                 Obj [(''#app'', Obj [(''$'', Obj [(''color'', Prim ''red'')])])])])
          NoOptions)
     = Some ''@media (max-width: 600px){#app{color:red;}\<newline>}\<newline>''
   \<and> css (compileStyle (cacheAfter earlier)
          (Obj [(''@media (max-width: 600px)'',
                 Obj [(''#app'', Obj [(''$'', Obj [(''color'', Prim ''red'')])])])])
          (OmitArray []))
     = Some ''@media (max-width: 600px){#app{color:red;}\<newline>}\<newline>''
   \<and> css (compileStyle (cacheAfter earlier)
          (Obj [(''@media (max-width: 600px)'',
                 Obj [(''#app'', Obj [(''$'', Obj [(''color'', Prim ''red'')])])])])
          (Options \<lparr>omit = None, format = Some Default\<rparr>))
     = Some ''@media (max-width: 600px){#app{color:red;}\<newline>}\<newline>''"
  by (simp add: compileStyle_denotation cacheAfter_ok run_simps)


section \<open>Determinism\<close>

text \<open>
  Claim C9. Whatever calls of \<^verbatim>\<open>kebabCase\<close> came before, \<^verbatim>\<open>kebabCase\<close> returns for a
  key what it returns on the empty cache, a compilation returns the stylesheet it
  returns on the empty cache, and compiling the same tree with the same options
  again, on the cache the first run left behind, returns the same stylesheet.
\<close>

theorem compileStyle_deterministic:
  "fst (kebabCase (cacheAfter earlier) key) = fst (kebabCase Map.empty key)
   \<and> css (compileStyle (cacheAfter earlier) style options)
       = css (compileStyle Map.empty style options)
   \<and> (\<exists>text cache1 cache2.
         compileStyle (cacheAfter earlier) style options = Some (text, cache1)
         \<and> compileStyle cache1 style options = Some (text, cache2))"
proof (intro conjI)
  have empty: "cacheOk Map.empty" by (simp add: cacheOk_def)
  show "fst (kebabCase (cacheAfter earlier) key) = fst (kebabCase Map.empty key)"
    using kebabCase_ok[OF cacheAfter_ok, of earlier key] kebabCase_ok[OF empty, of key] by simp
  from compileStyle_run[OF cacheAfter_ok, of earlier style options]
  obtain c1 where r1: "compileStyle (cacheAfter earlier) style options
        = Some (case style of
                  Obj keys \<Rightarrow> concat (walk [] 0 (formatOf options) (omitted (omitOf options)) keys)
                | _ \<Rightarrow> [], c1)"
    and c1: "cacheOk c1" by blast
  from compileStyle_run[OF empty, of style options] r1
  show "css (compileStyle (cacheAfter earlier) style options)
          = css (compileStyle Map.empty style options)"
    by (auto simp: css_def)
  from compileStyle_run[OF c1, of style options] r1
  show "\<exists>text cache1 cache2.
         compileStyle (cacheAfter earlier) style options = Some (text, cache1)
         \<and> compileStyle cache1 style options = Some (text, cache2)"
    by auto
qed

theorem compileStyle_deterministic_witness:
  "cacheAfter [''backgroundColor'', ''color''] ''backgroundColor'' = Some ''background-color''
   \<and> fst (kebabCase (cacheAfter [''backgroundColor'', ''color'']) ''backgroundColor'')
       = ''background-color''
   \<and> css (compileStyle (cacheAfter [''backgroundColor'', ''color''])
            (Obj [(''#app'', Obj [(''$'', Obj [(''color'', Prim ''red''),
                                               (''backgroundColor'', Prim ''black''),
                                               (''border'', Undefined)])])])
            NoOptions)
       = Some ''#app{color:red;background-color:black;}\<newline>''"
  using compileStyle_deterministic[of "[''backgroundColor'', ''color'']" "''backgroundColor''"
          "Obj [(''#app'', Obj [(''$'', Obj [(''color'', Prim ''red''),
                                             (''backgroundColor'', Prim ''black''),
                                             (''border'', Undefined)])])]" NoOptions]
  by (simp add: source_simps)

section \<open>Exclusion is subtree-wide\<close>

lemma replaceAt_deeper:
  "ks \<noteq> [] \<Longrightarrow>
   replaceAt (k # ks) new obj
     = map (\<lambda>(k', v). if k' = k
              then (k', case v of Obj sub \<Rightarrow> Obj (replaceAt ks new sub) | _ \<Rightarrow> v)
              else (k', v)) obj"
  by (cases ks) (simp, hypsubst, simp)

lemma map_of_other_key:
  "k \<noteq> key \<Longrightarrow>
   map_of (map (\<lambda>(k', v). if k' = k then (k', f v) else (k', v)) obj) key = map_of obj key"
  by (induction obj) auto

lemma getProp_replaceAt:
  "''$'' \<notin> set path \<Longrightarrow> getProp (replaceAt path new obj) ''$'' = getProp obj ''$''"
proof (cases path)
  case Nil
  then show ?thesis by simp
next
  case (Cons k ks)
  assume "''$'' \<notin> set path"
  with Cons have k: "k \<noteq> ''$''" by auto
  show ?thesis
  proof (cases "ks = []")
    case True
    with Cons map_of_other_key[OF k, of "\<lambda>v. new" obj] show ?thesis
      by (simp add: getProp_def)
  next
    case False
    with Cons
      map_of_other_key[OF k, of "\<lambda>v. case v of Obj sub \<Rightarrow> Obj (replaceAt ks new sub) | _ \<Rightarrow> v" obj]
    show ?thesis by (simp add: getProp_def replaceAt_deeper)
  qed
qed

lemma walk_replaceAt:
  "path \<noteq> [] \<Longrightarrow> ''$'' \<notin> set path \<Longrightarrow> \<not> firstCharIs (last path) CHR ''@'' \<Longrightarrow>
   isOmitted (selectorAt selector path) \<Longrightarrow>
   walk selector depth fmt isOmitted (replaceAt path new obj)
     = walk selector depth fmt isOmitted obj"
proof (induction path arbitrary: selector depth obj)
  case Nil
  then show ?case by simp
next
  case (Cons k ks)
  show ?case
  proof (cases "ks = []")
    case True
    with Cons.prems have om: "isOmitted (resolveSelector selector k)"
      and nat: "\<not> firstCharIs k CHR ''@''" by simp_all
    have "walk selector depth fmt isOmitted
            (map (\<lambda>(k', v). if k' = k then (k', new) else (k', v)) obj)
          = walk selector depth fmt isOmitted obj"
      using om nat by (induction obj) (auto split: jsval.splits)
    with True show ?thesis by simp
  next
    case ne: False
    with Cons.prems have k: "k \<noteq> ''$''" and d: "''$'' \<notin> set ks"
      and la: "\<not> firstCharIs (last ks) CHR ''@''" by auto
    have sub: "walk sel' d' fmt isOmitted (replaceAt ks new sub) = walk sel' d' fmt isOmitted sub"
      if "sel' = (if firstCharIs k CHR ''@'' then selector else resolveSelector selector k)"
      for sel' d' sub
      using Cons.IH[OF ne d la, of sel' d' sub] Cons.prems(4) that by simp
    have own: "ownRule s (replaceAt ks new sub) d' fmt = ownRule s sub d' fmt"
      "ownDeclarations (replaceAt ks new sub) d' fmt = ownDeclarations sub d' fmt" for s sub d'
      using getProp_replaceAt[OF d] by (simp_all add: ownRule_def ownDeclarations_def)
    have "walk selector depth fmt isOmitted
            (map (\<lambda>(k', v). if k' = k
                    then (k', case v of Obj sub \<Rightarrow> Obj (replaceAt ks new sub) | _ \<Rightarrow> v)
                    else (k', v)) obj)
          = walk selector depth fmt isOmitted obj"
      using sub own by (induction obj) (auto split: jsval.splits)
    with ne show ?thesis by (simp add: replaceAt_deeper)
  qed
qed

lemma touched_replaceAt:
  "path \<noteq> [] \<Longrightarrow> ''$'' \<notin> set path \<Longrightarrow> \<not> firstCharIs (last path) CHR ''@'' \<Longrightarrow>
   isOmitted (selectorAt selector path) \<Longrightarrow>
   touched selector isOmitted (replaceAt path new obj) = touched selector isOmitted obj"
proof (induction path arbitrary: selector obj)
  case Nil
  then show ?case by simp
next
  case (Cons k ks)
  show ?case
  proof (cases "ks = []")
    case True
    with Cons.prems have om: "isOmitted (resolveSelector selector k)"
      and nat: "\<not> firstCharIs k CHR ''@''" by simp_all
    have "touched selector isOmitted
            (map (\<lambda>(k', v). if k' = k then (k', new) else (k', v)) obj)
          = touched selector isOmitted obj"
      using om nat by (induction obj) (auto split: jsval.splits)
    with True show ?thesis by simp
  next
    case ne: False
    with Cons.prems have k: "k \<noteq> ''$''" and d: "''$'' \<notin> set ks"
      and la: "\<not> firstCharIs (last ks) CHR ''@''" by auto
    have sub: "touched sel' isOmitted (replaceAt ks new sub) = touched sel' isOmitted sub"
      if "sel' = (if firstCharIs k CHR ''@'' then selector else resolveSelector selector k)"
      for sel' sub
      using Cons.IH[OF ne d la, of sel' sub] Cons.prems(4) that by simp
    have own: "touchedBlock (getProp (replaceAt ks new sub) ''$'') = touchedBlock (getProp sub ''$'')"
      for sub
      using getProp_replaceAt[OF d] by simp
    have "touched selector isOmitted
            (map (\<lambda>(k', v). if k' = k
                    then (k', case v of Obj sub \<Rightarrow> Obj (replaceAt ks new sub) | _ \<Rightarrow> v)
                    else (k', v)) obj)
          = touched selector isOmitted obj"
      using sub own by (induction obj) (auto split: jsval.splits)
    with ne show ?thesis by (simp add: replaceAt_deeper)
  qed
qed

text \<open>
  Claim C4. Take any style tree, any options and any node reached by a path of keys
  none of which is \<^verbatim>\<open>$\<close>, under a selector key. If the exclusion predicate built
  from the options holds of the selector resolved for that node, the whole result of
  the compilation stays the same when the node is replaced by any value whatever.
  Nothing in the stylesheet comes from the node or from anything below it, whether
  or not a selector below it matches a pattern; and the cache the run leaves behind
  is the same too, so the walker has handed no property name from below the node to
  \<^verbatim>\<open>kebabCase\<close>: it has not gone into the node.
\<close>

theorem excluded_subtree_unused:
  assumes "path \<noteq> []" and "''$'' \<notin> set path" and "\<not> firstCharIs (last path) CHR ''@''"
    and "createOmitMatcher (omit (normalizeOptions options)) = Some isOmitted"
    and "isOmitted (selectorAt [] path)"
  shows "compileStyle (cacheAfter earlier) (Obj (replaceAt path new keys)) options
           = compileStyle (cacheAfter earlier) (Obj keys) options"
proof -
  from assms(4) have "isOmitted = omitted (omitOf options)"
    by (simp add: createOmitMatcher_omitted omitOf_def)
  with walk_replaceAt[OF assms(1-3), of isOmitted "[]" 0 "formatOf options" new keys]
       touched_replaceAt[OF assms(1-3), of isOmitted "[]" new keys] assms(5)
  show ?thesis by (simp add: compileStyle_full cacheAfter_ok)
qed

theorem excluded_subtree_unused_witness:
  "selectorAt [] [''#app'', ''.sections''] = ''#app .sections''
   \<and> map_option (\<lambda>isOmitted. map isOmitted [''#app .sections'', ''#app .sections a''])
         (createOmitMatcher (omit (normalizeOptions (OmitArray [''#app .sections'']))))
       = Some [True, False]
   \<and> compileStyle (cacheAfter [])
        (Obj (replaceAt [''#app'', ''.sections''] Undefined
           [(''#app'', Obj [(''$'', Obj [(''color'', Prim ''black'')]),
                  (''.sections'', Obj [(''$'', Obj [(''display'', Prim ''grid'')]),
                                       (''a'', Obj [(''$'', Obj [(''color'', Prim ''blue'')])])])])]))
        (OmitArray [''#app .sections''])
       = compileStyle (cacheAfter [])
           (Obj [(''#app'', Obj [(''$'', Obj [(''color'', Prim ''black'')]),
                  (''.sections'', Obj [(''$'', Obj [(''display'', Prim ''grid'')]),
                                       (''a'', Obj [(''$'', Obj [(''color'', Prim ''blue'')])])])])])
           (OmitArray [''#app .sections''])
   \<and> compileStyle (cacheAfter [])
        (Obj [(''#app'', Obj [(''$'', Obj [(''color'', Prim ''black'')]),
                  (''.sections'', Obj [(''$'', Obj [(''display'', Prim ''grid'')]),
                                       (''a'', Obj [(''$'', Obj [(''color'', Prim ''blue'')])])])])])
        (OmitArray [''#app .sections''])
       = Some (''#app{color:black;}\<newline>'', [''color'' \<mapsto> ''color''])"
proof -
  have om: "createOmitMatcher (omit (normalizeOptions (OmitArray [''#app .sections''])))
          = Some (omitted (Some [''#app .sections'']))"
    by (simp add: createOmitMatcher_omitted normalizeOptions_def)
  have sel: "selectorAt [] [''#app'', ''.sections''] = ''#app .sections''"
    by (simp add: resolveSelector_eq firstCharIs_def)
  have hit: "omitted (Some [''#app .sections'']) (selectorAt [] [''#app'', ''.sections''])"
    unfolding sel by (simp add: omitted_def atomsOf_def)
  have path: "[''#app'', ''.sections''] \<noteq> []" "''$'' \<notin> set [''#app'', ''.sections'']"
    "\<not> firstCharIs (last [''#app'', ''.sections'']) CHR ''@''"
    by (simp_all add: firstCharIs_def)
  have run: "compileStyle (cacheAfter [])
        (Obj [(''#app'', Obj [(''$'', Obj [(''color'', Prim ''black'')]),
                  (''.sections'', Obj [(''$'', Obj [(''display'', Prim ''grid'')]),
                                       (''a'', Obj [(''$'', Obj [(''color'', Prim ''blue'')])])])])])
        (OmitArray [''#app .sections''])
       = Some (''#app{color:black;}\<newline>'', [''color'' \<mapsto> ''color''])"
    by (simp add: source_simps)
  have pats: "map_option (\<lambda>isOmitted. map isOmitted [''#app .sections'', ''#app .sections a''])
         (createOmitMatcher (omit (normalizeOptions (OmitArray [''#app .sections'']))))
       = Some [True, False]"
    by (simp add: om omitted_def atomsOf_def)
  from excluded_subtree_unused[OF path om hit, of "[]" Undefined
         "[(''#app'', Obj [(''$'', Obj [(''color'', Prim ''black'')]),
                  (''.sections'', Obj [(''$'', Obj [(''display'', Prim ''grid'')]),
                                       (''a'', Obj [(''$'', Obj [(''color'', Prim ''blue'')])])])])]"] sel run pats
  show ?thesis by simp
qed

section \<open>The exclusion predicate as a glob\<close>

lemma test_atomsOf_glob:
  "test (atomsOf glob) s = globMatch (\<lambda>c. \<not> lineTerminator c) glob s"
proof (induction "\<lambda>c. \<not> lineTerminator c" glob s rule: globMatch.induct)
  case (1 s)
  show ?case by (simp add: atomsOf_def)
next
  case (2 p ps)
  then show ?case by (simp add: atomsOf_def)
next
  case (3 p ps x s)
  then show ?case by (simp add: atomsOf_def)
qed

text \<open>
  The predicate the code builds is the glob of the specification with one
  difference: \<^verbatim>\<open>*\<close> does not run over a line terminator. It is total: no glob makes
  the \<^verbatim>\<open>RegExp\<close> constructor fail.
\<close>

lemma createOmitMatcher_glob:
  "map_option (\<lambda>isOmitted. isOmitted selector) (createOmitMatcher omitGlobs)
     = Some (\<exists>glob \<in> set (case omitGlobs of None \<Rightarrow> [] | Some globs \<Rightarrow> globs).
               globMatch (\<lambda>c. \<not> lineTerminator c) glob selector)"
  by (simp add: createOmitMatcher_omitted omitted_def test_atomsOf_glob)

lemma globMatch_star_irrelevant:
  "\<forall>x \<in> set s. star x = star' x \<Longrightarrow> globMatch star glob s = globMatch star' glob s"
  by (induction star glob s rule: globMatch.induct) auto

lemma createOmitMatcher_glob_one_line:
  "\<forall>x \<in> set selector. \<not> lineTerminator x \<Longrightarrow>
   map_option (\<lambda>isOmitted. isOmitted selector) (createOmitMatcher omitGlobs)
     = Some (\<exists>glob \<in> set (case omitGlobs of None \<Rightarrow> [] | Some globs \<Rightarrow> globs).
               globMatch (\<lambda>c. True) glob selector)"
  using globMatch_star_irrelevant[of selector "\<lambda>c. \<not> lineTerminator c" "\<lambda>c. True"]
  by (simp add: createOmitMatcher_glob)

text \<open>
  Claim C5. The predicate \<^verbatim>\<open>createOmitMatcher\<close> returns is compared with the glob of
  the specification, whose \<^verbatim>\<open>*\<close> matches any run of characters. On the pattern
  \<^verbatim>\<open>.a*\<close> and a selector list written on two lines the glob matches, the predicate
  of the code does not, and the rule is compiled although the pattern covers it.
\<close>

theorem createOmitMatcher_newline:
  "globMatch (\<lambda>c. True) ''.a*'' ''.a,\<newline>.b''
   \<and> map_option (\<lambda>isOmitted. isOmitted ''.a,\<newline>.b'') (createOmitMatcher (Some [''.a*'']))
       = Some False
   \<and> css (compileStyle Map.empty
            (Obj [(''.a,\<newline>.b'', Obj [(''$'', Obj [(''color'', Prim ''red'')])])])
            (OmitArray [''.a*'']))
       = Some ''.a,\<newline>.b{color:red;}\<newline>''"
  by (simp add: source_simps)

section \<open>What the exclusion predicate is asked\<close>

lemma walk_cong_isOmitted:
  "\<forall>s \<in> set (selectorsOf selector keys). isOmitted s = isOmitted' s \<Longrightarrow>
   walk selector depth fmt isOmitted keys = walk selector depth fmt isOmitted' keys"
proof (induction selector depth fmt isOmitted keys rule: walk.induct)
  case (1 selector depth fmt isOmitted)
  show ?case by simp
next
  case (2 selector depth fmt isOmitted key child keys)
  show ?case
  proof (cases "key = [] \<or> key = ''$''")
    case True
    with 2 show ?thesis by simp
  next
    case nk: False
    show ?thesis
    proof (cases child)
      case (Obj cs)
      show ?thesis
      proof (cases "firstCharIs key CHR ''@''")
        case True
        with 2 nk Obj show ?thesis by simp
      next
        case nat: False
        show ?thesis
        proof (cases "isOmitted (resolveSelector selector key)")
          case True
          with 2 nk Obj nat show ?thesis by simp
        next
          case False
          with 2 nk Obj nat show ?thesis by simp
        qed
      qed
    qed (use 2 nk in simp_all)
  qed
qed

text \<open>
  Claim C10. The stylesheet depends on the exclusion patterns only through what they
  say about the resolved selectors of the selector-keyed nodes of the tree: two
  pattern lists that agree on those selectors give the same stylesheet, and so do two
  predicates inside \<^verbatim>\<open>compileRuleNode\<close> and \<^verbatim>\<open>compileAtRule\<close>. The name of an at-rule
  is not among the strings asked about, so a pattern that matches only at-rule names
  changes nothing. What \<^verbatim>\<open>compileAtRule\<close> returns is empty exactly when the body it
  assembled (its bare declarations and what its loop pushed) is empty.

  At a key that begins with \<^verbatim>\<open>@\<close> each of the four loops, at the top level, in a rule
  node and in an at-rule, pushes the wrapped at-rule whenever its body is not empty,
  whatever the predicate says about the key, and pushes nothing when the body is
  empty; a wrapper around a body that is not empty is not empty. For the stylesheet
  as a whole: it begins with the text of a top-level at-rule, whatever the patterns
  are.
\<close>

theorem at_rule_key_not_matched:
  "(createOmitMatcher globs = Some isOmitted \<and> createOmitMatcher globs' = Some isOmitted'
      \<and> (\<forall>s \<in> set (selectorsOf [] keys). isOmitted s = isOmitted' s)
    \<longrightarrow> css (compileStyle (cacheAfter earlier) (Obj keys) (Options \<lparr>omit = globs, format = f\<rparr>))
        = css (compileStyle (cacheAfter earlier) (Obj keys) (Options \<lparr>omit = globs', format = f\<rparr>)))
   \<and> ((\<forall>s \<in> set (selectorsOf selector style). om s = om' s)
    \<longrightarrow> fst (compileRuleNode (cacheAfter earlier) selector style depth fmt om out)
        = fst (compileRuleNode (cacheAfter earlier) selector style depth fmt om' out))
   \<and> ((\<forall>s \<in> set (selectorsOf selector style). om s = om' s)
    \<longrightarrow> fst (compileAtRule (cacheAfter earlier) name style selector depth fmt om)
        = fst (compileAtRule (cacheAfter earlier) name style selector depth fmt om'))
   \<and> ((fst (compileAtRule (cacheAfter earlier) name style selector depth fmt om) = [])
        = (concat (fst (atLoop (cacheAfter earlier) selector depth fmt om style
                     (writeDeclarations []
                        (fst (collectDeclarations (cacheAfter earlier) (getProp style ''$'')))
                        (depth + 1) fmt))) = []))
   \<and> (firstCharIs key CHR ''@'' \<longrightarrow>
      fst (ruleLoop (cacheAfter earlier) selector depth fmt om ((key, Obj style) # rest) out)
        = out
          @ (if (concat (fst (inlineLoop (cacheAfter earlier) selector depth fmt om style
                        (writeDeclarations []
                        (fst (collectDeclarations (cacheAfter earlier) (getProp style ''$'')))
                        (depth + 1) fmt)))) = []
             then []
             else [wrapAtRule key
                     (concat (fst (inlineLoop (cacheAfter earlier) selector depth fmt om style
                        (writeDeclarations []
                        (fst (collectDeclarations (cacheAfter earlier) (getProp style ''$'')))
                        (depth + 1) fmt))))
                     depth fmt])
          @ fst (ruleLoop (cacheAfter earlier) selector depth fmt om rest [])
      \<and> fst (styleLoop (cacheAfter earlier) fmt om ((key, Obj style) # rest) out)
        = out
          @ (if fst (compileAtRule (cacheAfter earlier) key style [] 0 fmt om) = []
             then []
             else [fst (compileAtRule (cacheAfter earlier) key style [] 0 fmt om)])
          @ fst (styleLoop (cacheAfter earlier) fmt om rest [])
      \<and> fst (inlineLoop (cacheAfter earlier) selector depth fmt om ((key, Obj style) # rest) out)
        = out
          @ (if fst (compileAtRule (cacheAfter earlier) key style selector (depth + 1) fmt om) = []
             then []
             else [fst (compileAtRule (cacheAfter earlier) key style selector (depth + 1) fmt om)])
          @ fst (inlineLoop (cacheAfter earlier) selector depth fmt om rest [])
      \<and> fst (atLoop (cacheAfter earlier) selector depth fmt om ((key, Obj style) # rest) out)
        = out
          @ (if fst (compileAtRule (cacheAfter earlier) key style selector (depth + 1) fmt om) = []
             then []
             else [fst (compileAtRule (cacheAfter earlier) key style selector (depth + 1) fmt om)])
          @ fst (atLoop (cacheAfter earlier) selector depth fmt om rest []))
   \<and> (firstCharIs key CHR ''@'' \<and> createOmitMatcher globs = Some isOmitted \<longrightarrow>
      css (compileStyle (cacheAfter earlier) (Obj ((key, Obj style) # rest))
             (Options \<lparr>omit = globs, format = f\<rparr>))
        = map_option
            ((@) (fst (compileAtRule (cacheAfter earlier) key style [] 0
                         (case f of None \<Rightarrow> Default | Some fmt' \<Rightarrow> fmt') isOmitted)))
            (css (compileStyle (cacheAfter earlier) (Obj rest)
                    (Options \<lparr>omit = globs, format = f\<rparr>))))
   \<and> (wrapAtRule key body depth fmt = []) = (body = [])"
proof (intro conjI impI)
  assume a: "createOmitMatcher globs = Some isOmitted \<and> createOmitMatcher globs' = Some isOmitted'
      \<and> (\<forall>s \<in> set (selectorsOf [] keys). isOmitted s = isOmitted' s)"
  then have "isOmitted = omitted globs" "isOmitted' = omitted globs'"
    by (simp_all add: createOmitMatcher_omitted)
  with a walk_cong_isOmitted[of "[]" keys "omitted globs" "omitted globs'" 0]
  show "css (compileStyle (cacheAfter earlier) (Obj keys) (Options \<lparr>omit = globs, format = f\<rparr>))
        = css (compileStyle (cacheAfter earlier) (Obj keys) (Options \<lparr>omit = globs', format = f\<rparr>))"
    by (simp add: compileStyle_denotation cacheAfter_ok omitOf_def formatOf_def normalizeOptions_def)
next
  assume "\<forall>s \<in> set (selectorsOf selector style). om s = om' s"
  then show "fst (compileRuleNode (cacheAfter earlier) selector style depth fmt om out)
        = fst (compileRuleNode (cacheAfter earlier) selector style depth fmt om' out)"
    by (simp add: compileRuleNode_run walk_cong_isOmitted[of selector style om om'])
next
  assume "\<forall>s \<in> set (selectorsOf selector style). om s = om' s"
  then show "fst (compileAtRule (cacheAfter earlier) name style selector depth fmt om)
        = fst (compileAtRule (cacheAfter earlier) name style selector depth fmt om')"
    by (simp add: compileAtRule_run walk_cong_isOmitted[of selector style om om'])
next
  show "(fst (compileAtRule (cacheAfter earlier) name style selector depth fmt om) = [])
        = (concat (fst (atLoop (cacheAfter earlier) selector depth fmt om style
                     (writeDeclarations []
                        (fst (collectDeclarations (cacheAfter earlier) (getProp style ''$'')))
                        (depth + 1) fmt))) = [])"
    by (simp add: compileAtRule_run atLoop_run collectDeclarations_run' wrapAtRule_empty_iff
          ownDeclarations_def del: concat_eq_Nil_conv)
next
  assume a: "firstCharIs key CHR ''@''"
  then have at: "key \<noteq> []" "key \<noteq> ''$''" by (auto simp: firstCharIs_def)
  show "fst (ruleLoop (cacheAfter earlier) selector depth fmt om ((key, Obj style) # rest) out)
        = out
          @ (if (concat (fst (inlineLoop (cacheAfter earlier) selector depth fmt om style
                        (writeDeclarations []
                        (fst (collectDeclarations (cacheAfter earlier) (getProp style ''$'')))
                        (depth + 1) fmt)))) = []
             then []
             else [wrapAtRule key
                     (concat (fst (inlineLoop (cacheAfter earlier) selector depth fmt om style
                        (writeDeclarations []
                        (fst (collectDeclarations (cacheAfter earlier) (getProp style ''$'')))
                        (depth + 1) fmt))))
                     depth fmt])
          @ fst (ruleLoop (cacheAfter earlier) selector depth fmt om rest [])"
    unfolding ruleLoop_run inlineLoop_run collectDeclarations_run' using a at
    by (simp add: ownDeclarations_def del: concat_eq_Nil_conv)
  show "fst (styleLoop (cacheAfter earlier) fmt om ((key, Obj style) # rest) out)
        = out
          @ (if fst (compileAtRule (cacheAfter earlier) key style [] 0 fmt om) = []
             then []
             else [fst (compileAtRule (cacheAfter earlier) key style [] 0 fmt om)])
          @ fst (styleLoop (cacheAfter earlier) fmt om rest [])"
    unfolding styleLoop_run compileAtRule_run using a at
    by (simp add: wrapAtRule_empty_iff del: concat_eq_Nil_conv)
  show "fst (inlineLoop (cacheAfter earlier) selector depth fmt om ((key, Obj style) # rest) out)
        = out
          @ (if fst (compileAtRule (cacheAfter earlier) key style selector (depth + 1) fmt om) = []
             then []
             else [fst (compileAtRule (cacheAfter earlier) key style selector (depth + 1) fmt om)])
          @ fst (inlineLoop (cacheAfter earlier) selector depth fmt om rest [])"
    unfolding inlineLoop_run compileAtRule_run using a at
    by (simp add: wrapAtRule_empty_iff del: concat_eq_Nil_conv)
  show "fst (atLoop (cacheAfter earlier) selector depth fmt om ((key, Obj style) # rest) out)
        = out
          @ (if fst (compileAtRule (cacheAfter earlier) key style selector (depth + 1) fmt om) = []
             then []
             else [fst (compileAtRule (cacheAfter earlier) key style selector (depth + 1) fmt om)])
          @ fst (atLoop (cacheAfter earlier) selector depth fmt om rest [])"
    unfolding atLoop_run compileAtRule_run using a at
    by (simp add: wrapAtRule_empty_iff del: concat_eq_Nil_conv)
next
  assume a: "firstCharIs key CHR ''@'' \<and> createOmitMatcher globs = Some isOmitted"
  then have at: "key \<noteq> []" "key \<noteq> ''$''" "firstCharIs key CHR ''@''"
    and om: "isOmitted = omitted globs"
    by (auto simp: firstCharIs_def createOmitMatcher_omitted)
  have w: "\<And>d fm. wrapAtRule key [] d fm = []" by (simp add: wrapAtRule_def)
  show "css (compileStyle (cacheAfter earlier) (Obj ((key, Obj style) # rest))
             (Options \<lparr>omit = globs, format = f\<rparr>))
        = map_option
            ((@) (fst (compileAtRule (cacheAfter earlier) key style [] 0
                         (case f of None \<Rightarrow> Default | Some fmt' \<Rightarrow> fmt') isOmitted)))
            (css (compileStyle (cacheAfter earlier) (Obj rest)
                    (Options \<lparr>omit = globs, format = f\<rparr>)))"
    unfolding compileAtRule_run om using at
    by (simp add: compileStyle_denotation cacheAfter_ok omitOf_def formatOf_def
          normalizeOptions_def wrapAtRule_empty_iff w del: concat_eq_Nil_conv)
next
  show "(wrapAtRule key body depth fmt = []) = (body = [])"
    by (rule wrapAtRule_empty_iff)
qed

theorem at_rule_key_not_matched_witness:
  "selectorsOf [] [(''@media (max-width: 600px)'', Obj [(''#app'', Obj [(''$'', Obj [(''color'', Prim ''red'')])])])] = [''#app'']
   \<and> map_option (\<lambda>isOmitted. map isOmitted [''@media (max-width: 600px)'', ''#app''])
         (createOmitMatcher (Some [''@media*'']))
       = Some [True, False]
   \<and> css (compileStyle (cacheAfter []) (Obj [(''@media (max-width: 600px)'', Obj [(''#app'', Obj [(''$'', Obj [(''color'', Prim ''red'')])])])])
            (Options \<lparr>omit = Some [''@media*''], format = None\<rparr>))
       = css (compileStyle (cacheAfter []) (Obj [(''@media (max-width: 600px)'', Obj [(''#app'', Obj [(''$'', Obj [(''color'', Prim ''red'')])])])])
            (Options \<lparr>omit = None, format = None\<rparr>))
   \<and> css (compileStyle (cacheAfter []) (Obj [(''@media (max-width: 600px)'', Obj [(''#app'', Obj [(''$'', Obj [(''color'', Prim ''red'')])])])])
            (Options \<lparr>omit = Some [''@media*''], format = None\<rparr>))
       = Some ''@media (max-width: 600px){#app{color:red;}\<newline>}\<newline>''
   \<and> fst (compileRuleNode (cacheAfter []) [] [(''@media (max-width: 600px)'', Obj [(''#app'', Obj [(''$'', Obj [(''color'', Prim ''red'')])])])] 0 Default (\<lambda>s. firstCharIs s CHR ''@'') [])
       = fst (compileRuleNode (cacheAfter []) [] [(''@media (max-width: 600px)'', Obj [(''#app'', Obj [(''$'', Obj [(''color'', Prim ''red'')])])])] 0 Default (\<lambda>s. False) [])
   \<and> fst (compileAtRule (cacheAfter []) ''@media (max-width: 600px)'' [(''#app'', Obj [(''$'', Obj [(''color'', Prim ''red'')])])] [] 0 Default (\<lambda>s. firstCharIs s CHR ''@''))
       = fst (compileAtRule (cacheAfter []) ''@media (max-width: 600px)'' [(''#app'', Obj [(''$'', Obj [(''color'', Prim ''red'')])])] [] 0 Default (\<lambda>s. False))
   \<and> fst (compileAtRule (cacheAfter []) ''@media (max-width: 600px)'' [(''#app'', Obj [(''$'', Obj [(''color'', Prim ''red'')])])] [] 0 Default (\<lambda>s. firstCharIs s CHR ''@''))
       = ''@media (max-width: 600px){#app{color:red;}\<newline>}\<newline>''
   \<and> fst (ruleLoop (cacheAfter []) ''#app'' 0 Default (\<lambda>s. firstCharIs s CHR ''@'') [(''@media print'', Obj [(''$'', Obj [(''color'', Prim ''red'')]), (''a'', Obj [(''$'', Obj [(''color'', Prim ''blue'')])])])] [])
       = [''@media print{color:red;#app a{color:blue;}\<newline>}\<newline>'']
   \<and> fst (styleLoop (cacheAfter []) Default (\<lambda>s. firstCharIs s CHR ''@'') [(''@media print'', Obj [(''$'', Obj [(''color'', Prim ''red'')]), (''a'', Obj [(''$'', Obj [(''color'', Prim ''blue'')])])])] [])
       = [''@media print{color:red;a{color:blue;}\<newline>}\<newline>'']
   \<and> fst (inlineLoop (cacheAfter []) ''#app'' 0 Default (\<lambda>s. firstCharIs s CHR ''@'') [(''@media print'', Obj [(''$'', Obj [(''color'', Prim ''red'')]), (''a'', Obj [(''$'', Obj [(''color'', Prim ''blue'')])])])] [])
       = [''@media print{color:red;#app a{color:blue;}\<newline>}\<newline>'']
   \<and> fst (atLoop (cacheAfter []) ''#app'' 0 Default (\<lambda>s. firstCharIs s CHR ''@'') [(''@media print'', Obj [(''$'', Obj [(''color'', Prim ''red'')]), (''a'', Obj [(''$'', Obj [(''color'', Prim ''blue'')])])])] [])
       = [''@media print{color:red;#app a{color:blue;}\<newline>}\<newline>'']
   \<and> fst (ruleLoop (cacheAfter []) ''#app'' 0 Default (\<lambda>s. firstCharIs s CHR ''@'') [(''@media print'', Obj [(''$'', Obj [])])] [])
       = []
   \<and> css (compileStyle (cacheAfter []) (Obj [(''@media print'', Obj [(''$'', Obj [(''color'', Prim ''red'')]), (''a'', Obj [(''$'', Obj [(''color'', Prim ''blue'')])])])])
            (Options \<lparr>omit = Some [''@media*''], format = None\<rparr>))
       = Some ''@media print{color:red;a{color:blue;}\<newline>}\<newline>''
   \<and> css (compileStyle (cacheAfter []) (Obj [(''#app'', Obj [(''@media print'', Obj [(''$'', Obj [(''color'', Prim ''red'')]), (''a'', Obj [(''$'', Obj [(''color'', Prim ''blue'')])])])])])
            (Options \<lparr>omit = Some [''@media*''], format = None\<rparr>))
       = Some ''@media print{color:red;#app a{color:blue;}\<newline>}\<newline>''"
proof -
  have sels: "selectorsOf [] [(''@media (max-width: 600px)'', Obj [(''#app'', Obj [(''$'', Obj [(''color'', Prim ''red'')])])])] = [''#app'']"
    "selectorsOf [] [(''#app'', Obj [(''$'', Obj [(''color'', Prim ''red'')])])] = [''#app'']"
    by (simp_all add: resolveSelector_eq firstCharIs_def)
  have om: "createOmitMatcher (Some [''@media*'']) = Some (omitted (Some [''@media*'']))"
    "createOmitMatcher None = Some (omitted None)"
    by (simp_all add: createOmitMatcher_omitted)
  have agree: "\<forall>s \<in> set (selectorsOf [] [(''@media (max-width: 600px)'', Obj [(''#app'', Obj [(''$'', Obj [(''color'', Prim ''red'')])])])]).
                 omitted (Some [''@media*'']) s = omitted None s"
    "\<forall>s \<in> set (selectorsOf [] [(''@media (max-width: 600px)'', Obj [(''#app'', Obj [(''$'', Obj [(''color'', Prim ''red'')])])])]). firstCharIs s CHR ''@'' = False"
    "\<forall>s \<in> set (selectorsOf [] [(''#app'', Obj [(''$'', Obj [(''color'', Prim ''red'')])])]). firstCharIs s CHR ''@'' = False"
    unfolding sels by (simp_all add: omitted_def atomsOf_def firstCharIs_def)
  have pats: "map_option (\<lambda>isOmitted. map isOmitted [''@media (max-width: 600px)'', ''#app''])
         (createOmitMatcher (Some [''@media*'']))
       = Some [True, False]"
    by (simp add: om omitted_def atomsOf_def lineTerminator_def)
  have run: "css (compileStyle (cacheAfter []) (Obj [(''@media (max-width: 600px)'', Obj [(''#app'', Obj [(''$'', Obj [(''color'', Prim ''red'')])])])])
            (Options \<lparr>omit = None, format = None\<rparr>))
       = Some ''@media (max-width: 600px){#app{color:red;}\<newline>}\<newline>''"
    "fst (compileAtRule (cacheAfter []) ''@media (max-width: 600px)'' [(''#app'', Obj [(''$'', Obj [(''color'', Prim ''red'')])])] [] 0 Default (\<lambda>s. False))
       = ''@media (max-width: 600px){#app{color:red;}\<newline>}\<newline>''"
    by (simp_all add: source_simps)
  note T = at_rule_key_not_matched[of "Some [''@media*'']" "omitted (Some [''@media*''])"
         None "omitted None" "[(''@media (max-width: 600px)'', Obj [(''#app'', Obj [(''$'', Obj [(''color'', Prim ''red'')])])])]" "[]" None "[]" "[(''@media (max-width: 600px)'', Obj [(''#app'', Obj [(''$'', Obj [(''color'', Prim ''red'')])])])]"
         "\<lambda>s. firstCharIs s CHR ''@''" "\<lambda>s. False" 0 Default "[]" "''@media (max-width: 600px)''"]
  note T' = at_rule_key_not_matched[of "Some [''@media*'']" "omitted (Some [''@media*''])"
         None "omitted None" "[(''@media (max-width: 600px)'', Obj [(''#app'', Obj [(''$'', Obj [(''color'', Prim ''red'')])])])]" "[]" None "[]" "[(''#app'', Obj [(''$'', Obj [(''color'', Prim ''red'')])])]"
         "\<lambda>s. firstCharIs s CHR ''@''" "\<lambda>s. False" 0 Default "[]" "''@media (max-width: 600px)''"]
  from T[THEN conjunct1] om agree(1)
  have c1: "css (compileStyle (cacheAfter []) (Obj [(''@media (max-width: 600px)'', Obj [(''#app'', Obj [(''$'', Obj [(''color'', Prim ''red'')])])])])
            (Options \<lparr>omit = Some [''@media*''], format = None\<rparr>))
       = css (compileStyle (cacheAfter []) (Obj [(''@media (max-width: 600px)'', Obj [(''#app'', Obj [(''$'', Obj [(''color'', Prim ''red'')])])])])
            (Options \<lparr>omit = None, format = None\<rparr>))"
    by blast
  from T[THEN conjunct2, THEN conjunct1] agree(2)
  have c2: "fst (compileRuleNode (cacheAfter []) [] [(''@media (max-width: 600px)'', Obj [(''#app'', Obj [(''$'', Obj [(''color'', Prim ''red'')])])])] 0 Default (\<lambda>s. firstCharIs s CHR ''@'') [])
       = fst (compileRuleNode (cacheAfter []) [] [(''@media (max-width: 600px)'', Obj [(''#app'', Obj [(''$'', Obj [(''color'', Prim ''red'')])])])] 0 Default (\<lambda>s. False) [])"
    by blast
  from T'[THEN conjunct2, THEN conjunct2, THEN conjunct1] agree(3)
  have c3: "fst (compileAtRule (cacheAfter []) ''@media (max-width: 600px)'' [(''#app'', Obj [(''$'', Obj [(''color'', Prim ''red'')])])] [] 0 Default (\<lambda>s. firstCharIs s CHR ''@''))
       = fst (compileAtRule (cacheAfter []) ''@media (max-width: 600px)'' [(''#app'', Obj [(''$'', Obj [(''color'', Prim ''red'')])])] [] 0 Default (\<lambda>s. False))"
    by blast
  have at: "firstCharIs ''@media print'' CHR ''@''"
    by (simp add: firstCharIs_def)
  have om': "createOmitMatcher (Some [''@media*'']) = Some (omitted (Some [''@media*'']))"
    by (simp add: createOmitMatcher_omitted)
  note L = at_rule_key_not_matched[where earlier = "[]" and key = "''@media print''"
      and selector = "''#app''" and depth = 0 and fmt = Default and om = "(\<lambda>s. firstCharIs s CHR ''@'')"
      and style = "[(''$'', Obj [(''color'', Prim ''red'')]), (''a'', Obj [(''$'', Obj [(''color'', Prim ''blue'')])])]" and rest = "[]" and out = "[]",
      THEN conjunct2, THEN conjunct2, THEN conjunct2, THEN conjunct2, THEN conjunct1,
      THEN mp, OF at]
  note E = at_rule_key_not_matched[where earlier = "[]" and key = "''@media print''"
      and selector = "''#app''" and depth = 0 and fmt = Default and om = "(\<lambda>s. firstCharIs s CHR ''@'')"
      and style = "[(''$'', Obj [])]" and rest = "[]" and out = "[]",
      THEN conjunct2, THEN conjunct2, THEN conjunct2, THEN conjunct2, THEN conjunct1,
      THEN mp, OF at]
  note S = at_rule_key_not_matched[where earlier = "[]" and key = "''@media print''"
      and style = "[(''$'', Obj [(''color'', Prim ''red'')]), (''a'', Obj [(''$'', Obj [(''color'', Prim ''blue'')])])]" and rest = "[]" and globs = "Some [''@media*'']"
      and isOmitted = "omitted (Some [''@media*''])" and f = None,
      THEN conjunct2, THEN conjunct2, THEN conjunct2, THEN conjunct2, THEN conjunct2,
      THEN conjunct1, THEN mp, OF conjI, OF at om']
  have n1: "fst (ruleLoop (cacheAfter []) ''#app'' 0 Default (\<lambda>s. firstCharIs s CHR ''@'') [(''@media print'', Obj [(''$'', Obj [(''color'', Prim ''red'')]), (''a'', Obj [(''$'', Obj [(''color'', Prim ''blue'')])])])] [])
       = [''@media print{color:red;#app a{color:blue;}\<newline>}\<newline>'']"
    using L[THEN conjunct1] by (simp add: source_simps)
  have n2: "fst (styleLoop (cacheAfter []) Default (\<lambda>s. firstCharIs s CHR ''@'') [(''@media print'', Obj [(''$'', Obj [(''color'', Prim ''red'')]), (''a'', Obj [(''$'', Obj [(''color'', Prim ''blue'')])])])] [])
       = [''@media print{color:red;a{color:blue;}\<newline>}\<newline>'']"
    using L[THEN conjunct2, THEN conjunct1] by (simp add: source_simps)
  have n3: "fst (inlineLoop (cacheAfter []) ''#app'' 0 Default (\<lambda>s. firstCharIs s CHR ''@'') [(''@media print'', Obj [(''$'', Obj [(''color'', Prim ''red'')]), (''a'', Obj [(''$'', Obj [(''color'', Prim ''blue'')])])])] [])
       = [''@media print{color:red;#app a{color:blue;}\<newline>}\<newline>'']"
    using L[THEN conjunct2, THEN conjunct2, THEN conjunct1] by (simp add: source_simps)
  have n4: "fst (atLoop (cacheAfter []) ''#app'' 0 Default (\<lambda>s. firstCharIs s CHR ''@'') [(''@media print'', Obj [(''$'', Obj [(''color'', Prim ''red'')]), (''a'', Obj [(''$'', Obj [(''color'', Prim ''blue'')])])])] [])
       = [''@media print{color:red;#app a{color:blue;}\<newline>}\<newline>'']"
    using L[THEN conjunct2, THEN conjunct2, THEN conjunct2] by (simp add: source_simps)
  have n5: "fst (ruleLoop (cacheAfter []) ''#app'' 0 Default (\<lambda>s. firstCharIs s CHR ''@'') [(''@media print'', Obj [(''$'', Obj [])])] [])
       = []"
    using E[THEN conjunct1] by (simp add: source_simps)
  have glob: "omitted (Some [''@media*'']) ''a'' = False"
    by (simp add: omitted_def atomsOf_def)
  have n6: "css (compileStyle (cacheAfter []) (Obj [(''@media print'', Obj [(''$'', Obj [(''color'', Prim ''red'')]), (''a'', Obj [(''$'', Obj [(''color'', Prim ''blue'')])])])])
            (Options \<lparr>omit = Some [''@media*''], format = None\<rparr>))
       = Some ''@media print{color:red;a{color:blue;}\<newline>}\<newline>''"
    using S glob by (simp add: source_simps)
  have n7: "css (compileStyle (cacheAfter []) (Obj [(''#app'', Obj [(''@media print'', Obj [(''$'', Obj [(''color'', Prim ''red'')]), (''a'', Obj [(''$'', Obj [(''color'', Prim ''blue'')])])])])])
            (Options \<lparr>omit = Some [''@media*''], format = None\<rparr>))
       = Some ''@media print{color:red;#app a{color:blue;}\<newline>}\<newline>''"
    by (simp add: source_simps)
  show ?thesis
    unfolding c1 c3 run by (intro conjI refl sels(1) pats c2 n1 n2 n3 n4 n5 n6 n7)
qed

section \<open>Absent values and empty bodies\<close>








section \<open>At-rules keep the selector\<close>

lemma wrapAtRules_empty_iff: "wrapAtRules names body depth fmt = [] \<longleftrightarrow> body = []"
  by (induction names arbitrary: depth) (simp_all add: wrapAtRule_empty_iff)






section \<open>Nesting depth\<close>

lemma collectDeclarations_empty_cache:
  "fst (collectDeclarations Map.empty props) = declarationsOf props"
  using collectDeclarations_ok[of Map.empty props] by (simp add: cacheOk_def)

lemma foldl_writeRule:
  "foldl (\<lambda>acc (s, ds). if ds \<noteq> [] then writeRule acc s ds depth fmt else acc) out rules
     = out @ concat (map (\<lambda>(s, ds). if ds \<noteq> [] then writeRule [] s ds depth fmt else []) rules)"
proof (induction rules arbitrary: out)
  case Nil
  show ?case by simp
next
  case (Cons r rules)
  obtain s ds where r: "r = (s, ds)" by (cases r)
  show ?case unfolding r using Cons[of "writeRule out s ds depth fmt"] Cons[of out]
    by (simp add: writeRule_append[of out])
qed

lemma walk_atRuleFree:
  "atRuleFree keys \<Longrightarrow>
   walk selector depth fmt isOmitted keys
     = concat (map (\<lambda>(s, ds). if ds \<noteq> [] then writeRule [] s ds depth fmt else [])
               (rulesBelow selector isOmitted keys))"
proof (induction selector depth fmt isOmitted keys rule: walk.induct)
  case (1 selector depth fmt isOmitted)
  show ?case by simp
next
  case (2 selector depth fmt isOmitted key child keys)
  show ?case
  proof (cases "key = [] \<or> key = ''$''")
    case True
    with 2 show ?thesis by simp
  next
    case nk: False
    show ?thesis
    proof (cases child)
      case (Obj cs)
      with "2.prems" nk have nat: "\<not> firstCharIs key CHR ''@''"
        and free: "atRuleFree cs" "atRuleFree keys" by simp_all
      show ?thesis
      proof (cases "isOmitted (resolveSelector selector key)")
        case True
        with 2 nk Obj nat free show ?thesis by simp
      next
        case False
        with "2.IH"(9,10)[OF nk Obj nat False] nk Obj nat free show ?thesis
          by (simp add: ownRule_def collectDeclarations_empty_cache)
      qed
    qed (use 2 nk in simp_all)
  qed
qed

lemma concat_writeRule_pretty:
  "concat (writeRule [] selector ds depth Pretty)
        = concat (replicate depth ''  '') @ selector @ '' {\<newline>''
          @ concat (map (\<lambda>(prop, val).
                      concat (replicate (depth + 1) ''  '') @ prop @ '': '' @ val @ '';\<newline>'') ds)
          @ concat (replicate depth ''  '') @ ''}\<newline>''"
  by (induction ds) (auto simp: writeRule_eq indent_def)

text \<open>
  Claim C7, as stated, fails. Under the rule node \<^verbatim>\<open>#app\<close> at depth 0 the child
  \<^verbatim>\<open>a\<close> is not compiled as it would be at depth 1, and the stylesheet in the pretty
  format, the one the test of the repository expects, has the nested rule at the
  margin, not one level in.
\<close>

theorem nested_rule_depth_counterexample:
  "fst (ruleLoop Map.empty ''#app'' 0 Pretty (\<lambda>s. False) [(''a'', Obj [(''$'', Obj [(''color'', Prim ''blue'')])])] [])
     \<noteq> fst (compileRuleNode Map.empty (resolveSelector ''#app'' ''a'') [(''$'', Obj [(''color'', Prim ''blue'')])] (0 + 1) Pretty
              (\<lambda>s. False) [])
   \<and> css (compileStyle Map.empty (Obj [(''#app'', Obj [(''$'', Obj [(''color'', Prim ''red'')]), (''a'', Obj [(''$'', Obj [(''color'', Prim ''blue'')])])])]) (Options \<lparr>omit = None, format = Some Pretty\<rparr>))
       = Some ''#app {\<newline>  color: red;\<newline>}\<newline>#app a {\<newline>  color: blue;\<newline>}\<newline>''
   \<and> css (compileStyle Map.empty (Obj [(''#app'', Obj [(''$'', Obj [(''color'', Prim ''red'')]), (''a'', Obj [(''$'', Obj [(''color'', Prim ''blue'')])])])]) (Options \<lparr>omit = None, format = Some Pretty\<rparr>))
       \<noteq> Some ''#app {\<newline>  color: red;\<newline>}\<newline>  #app a {\<newline>    color: blue;\<newline>  }\<newline>''"
  by (simp add: source_simps)

text \<open>
  Claim C7, amended. A selector-keyed child of a rule node that is not excluded is
  compiled at the depth of its parent, and the loop goes on with what that pushed;
  only a child of an at-rule is compiled one level deeper than the at-rule, whether
  the at-rule is compiled by \<^verbatim>\<open>compileAtRule\<close> or by the at-rule branch of
  \<^verbatim>\<open>compileRuleNode\<close>, and an at-rule nested in an at-rule is wrapped one level
  deeper; at the top level both are compiled at depth 0. So in a tree without
  at-rules the rule of a node and the rules of all nodes below it are written, one
  after the other, at one and the same depth: in the pretty format, where a rule at
  depth \<open>d\<close> has \<open>d\<close> times two spaces before its selector and its closing brace and
  one level more before its declarations, their lines carry the same indentation.
\<close>

theorem nested_rule_depth:
  "(key \<noteq> [] \<and> key \<noteq> ''$'' \<and> \<not> firstCharIs key CHR ''@''
      \<and> \<not> isOmitted (resolveSelector selector key) \<longrightarrow>
      fst (ruleLoop (cacheAfter earlier) selector depth fmt isOmitted ((key, Obj child) # keys) out)
        = fst (ruleLoop (cacheAfter earlier) selector depth fmt isOmitted keys
                 (fst (compileRuleNode (cacheAfter earlier) (resolveSelector selector key) child
                         depth fmt isOmitted out)))
      \<and> fst (atLoop (cacheAfter earlier) selector depth fmt isOmitted ((key, Obj child) # keys) out)
        = fst (atLoop (cacheAfter earlier) selector depth fmt isOmitted keys
                 (fst (compileRuleNode (cacheAfter earlier) (resolveSelector selector key) child
                         (depth + 1) fmt isOmitted out))))
   \<and> (atRuleFree style \<longrightarrow>
      fst (compileRuleNode (cacheAfter earlier) selector style depth fmt isOmitted out)
        = foldl (\<lambda>acc (s, ds). if ds \<noteq> [] then writeRule acc s ds depth fmt else acc) out
            ((selector, fst (collectDeclarations Map.empty (getProp style ''$'')))
             # rulesBelow selector isOmitted style))
   \<and> (key \<noteq> [] \<and> key \<noteq> ''$'' \<and> \<not> firstCharIs key CHR ''@''
      \<and> \<not> isOmitted (resolveSelector selector key) \<longrightarrow>
      fst (inlineLoop (cacheAfter earlier) selector depth fmt isOmitted ((key, Obj child) # keys) out)
        = fst (inlineLoop (cacheAfter earlier) selector depth fmt isOmitted keys
                 (fst (compileRuleNode (cacheAfter earlier) (resolveSelector selector key) child
                         (depth + 1) fmt isOmitted out))))
   \<and> (key \<noteq> [] \<and> key \<noteq> ''$'' \<and> \<not> firstCharIs key CHR ''@''
      \<and> \<not> isOmitted (resolveSelector selector key) \<and> firstCharIs atKey CHR ''@'' \<longrightarrow>
      fst (ruleLoop (cacheAfter earlier) selector depth fmt isOmitted
             [(atKey, Obj [(key, Obj child)])] [])
        = (if concat (fst (compileRuleNode (cacheAfter earlier) (resolveSelector selector key)
                             child (depth + 1) fmt isOmitted [])) = []
           then []
           else [wrapAtRule atKey
                   (concat (fst (compileRuleNode (cacheAfter earlier)
                                   (resolveSelector selector key) child (depth + 1) fmt
                                   isOmitted [])))
                   depth fmt])
      \<and> fst (compileAtRule (cacheAfter earlier) atKey [(key, Obj child)] selector depth fmt
             isOmitted)
        = wrapAtRule atKey
            (concat (fst (compileRuleNode (cacheAfter earlier) (resolveSelector selector key)
                            child (depth + 1) fmt isOmitted [])))
            depth fmt)
   \<and> (firstCharIs atKey CHR ''@'' \<longrightarrow>
      fst (ruleLoop (cacheAfter earlier) selector depth fmt isOmitted ((atKey, Obj style) # keys) out)
        = fst (ruleLoop (cacheAfter earlier) selector depth fmt isOmitted keys
                 (if concat (fst (inlineLoop (cacheAfter earlier) selector depth fmt isOmitted style
                                    (writeDeclarations []
                        (fst (collectDeclarations (cacheAfter earlier) (getProp style ''$'')))
                        (depth + 1) fmt))) \<noteq> []
                  then out @ [wrapAtRule atKey
                                (concat (fst (inlineLoop (cacheAfter earlier) selector depth fmt
                                                isOmitted style
                                                (writeDeclarations []
                        (fst (collectDeclarations (cacheAfter earlier) (getProp style ''$'')))
                        (depth + 1) fmt))))
                                depth fmt]
                  else out))
      \<and> fst (inlineLoop (cacheAfter earlier) selector depth fmt isOmitted ((atKey, Obj style) # keys) out)
        = fst (inlineLoop (cacheAfter earlier) selector depth fmt isOmitted keys
                 (if fst (compileAtRule (cacheAfter earlier) atKey style selector (depth + 1) fmt
                            isOmitted) \<noteq> []
                  then out @ [fst (compileAtRule (cacheAfter earlier) atKey style selector
                                     (depth + 1) fmt isOmitted)]
                  else out))
      \<and> fst (atLoop (cacheAfter earlier) selector depth fmt isOmitted ((atKey, Obj style) # keys) out)
        = fst (atLoop (cacheAfter earlier) selector depth fmt isOmitted keys
                 (if fst (compileAtRule (cacheAfter earlier) atKey style selector (depth + 1) fmt
                            isOmitted) \<noteq> []
                  then out @ [fst (compileAtRule (cacheAfter earlier) atKey style selector
                                     (depth + 1) fmt isOmitted)]
                  else out)))
   \<and> fst (compileAtRule (cacheAfter earlier) atKey style selector depth fmt isOmitted)
        = wrapAtRule atKey
            (concat (fst (atLoop (cacheAfter earlier) selector depth fmt isOmitted style
                            (writeDeclarations []
                        (fst (collectDeclarations (cacheAfter earlier) (getProp style ''$'')))
                        (depth + 1) fmt))))
            depth fmt
   \<and> concat (writeRule [] selector ds depth Pretty)
        = concat (replicate depth ''  '') @ selector @ '' {\<newline>''
          @ concat (map (\<lambda>(prop, val).
                      concat (replicate (depth + 1) ''  '') @ prop @ '': '' @ val @ '';\<newline>'') ds)
          @ concat (replicate depth ''  '') @ ''}\<newline>''
   \<and> (key \<noteq> [] \<and> key \<noteq> ''$'' \<and> \<not> firstCharIs key CHR ''@''
      \<and> \<not> isOmitted (resolveSelector [] key) \<longrightarrow>
      fst (styleLoop (cacheAfter earlier) fmt isOmitted ((key, Obj child) # keys) out)
        = fst (styleLoop (cacheAfter earlier) fmt isOmitted keys
                 (fst (compileRuleNode (cacheAfter earlier) (resolveSelector [] key) child
                         0 fmt isOmitted out))))
   \<and> (firstCharIs atKey CHR ''@'' \<longrightarrow>
      fst (styleLoop (cacheAfter earlier) fmt isOmitted ((atKey, Obj style) # keys) out)
        = fst (styleLoop (cacheAfter earlier) fmt isOmitted keys
                 (if fst (compileAtRule (cacheAfter earlier) atKey style [] 0 fmt isOmitted) \<noteq> []
                  then out @ [fst (compileAtRule (cacheAfter earlier) atKey style [] 0 fmt
                                     isOmitted)]
                  else out)))"
proof (intro conjI impI)
  assume a: "key \<noteq> [] \<and> key \<noteq> ''$'' \<and> \<not> firstCharIs key CHR ''@''
      \<and> \<not> isOmitted (resolveSelector selector key)"
  show "fst (ruleLoop (cacheAfter earlier) selector depth fmt isOmitted ((key, Obj child) # keys) out)
        = fst (ruleLoop (cacheAfter earlier) selector depth fmt isOmitted keys
                 (fst (compileRuleNode (cacheAfter earlier) (resolveSelector selector key) child
                         depth fmt isOmitted out)))"
    unfolding ruleLoop_run compileRuleNode_run using a by simp
  from a show "fst (atLoop (cacheAfter earlier) selector depth fmt isOmitted ((key, Obj child) # keys) out)
        = fst (atLoop (cacheAfter earlier) selector depth fmt isOmitted keys
                 (fst (compileRuleNode (cacheAfter earlier) (resolveSelector selector key) child
                         (depth + 1) fmt isOmitted out)))"
    unfolding atLoop_run compileRuleNode_run by simp
next
  assume "atRuleFree style"
  from walk_atRuleFree[OF this, of selector depth fmt isOmitted]
  show "fst (compileRuleNode (cacheAfter earlier) selector style depth fmt isOmitted out)
        = foldl (\<lambda>acc (s, ds). if ds \<noteq> [] then writeRule acc s ds depth fmt else acc) out
            ((selector, fst (collectDeclarations Map.empty (getProp style ''$'')))
             # rulesBelow selector isOmitted style)"
    unfolding compileRuleNode_run foldl_writeRule
    by (simp add: ownRule_def collectDeclarations_empty_cache)
next
  assume a: "key \<noteq> [] \<and> key \<noteq> ''$'' \<and> \<not> firstCharIs key CHR ''@''
      \<and> \<not> isOmitted (resolveSelector selector key)"
  then show "fst (inlineLoop (cacheAfter earlier) selector depth fmt isOmitted ((key, Obj child) # keys) out)
        = fst (inlineLoop (cacheAfter earlier) selector depth fmt isOmitted keys
                 (fst (compileRuleNode (cacheAfter earlier) (resolveSelector selector key) child
                         (depth + 1) fmt isOmitted out)))"
    unfolding inlineLoop_run compileRuleNode_run by simp
next
  assume a: "key \<noteq> [] \<and> key \<noteq> ''$'' \<and> \<not> firstCharIs key CHR ''@''
      \<and> \<not> isOmitted (resolveSelector selector key) \<and> firstCharIs atKey CHR ''@''"
  then have at: "atKey \<noteq> []" "atKey \<noteq> ''$''" "firstCharIs atKey CHR ''@''"
    by (auto simp: firstCharIs_def)
  have own: "ownDeclarations [(key, Obj child)] (depth + 1) fmt = []"
    using a by (auto simp: ownDeclarations_def getProp_def declarationsOf_def writeDeclarations_Nil)
  show "fst (ruleLoop (cacheAfter earlier) selector depth fmt isOmitted
             [(atKey, Obj [(key, Obj child)])] [])
        = (if concat (fst (compileRuleNode (cacheAfter earlier) (resolveSelector selector key)
                             child (depth + 1) fmt isOmitted [])) = []
           then []
           else [wrapAtRule atKey
                   (concat (fst (compileRuleNode (cacheAfter earlier)
                                   (resolveSelector selector key) child (depth + 1) fmt
                                   isOmitted [])))
                   depth fmt])"
    unfolding ruleLoop_run compileRuleNode_run using a at own
    by (simp del: concat_eq_Nil_conv)
  show "fst (compileAtRule (cacheAfter earlier) atKey [(key, Obj child)] selector depth fmt
             isOmitted)
        = wrapAtRule atKey
            (concat (fst (compileRuleNode (cacheAfter earlier) (resolveSelector selector key)
                            child (depth + 1) fmt isOmitted [])))
            depth fmt"
    unfolding compileAtRule_run compileRuleNode_run using a at own
    by (simp del: concat_eq_Nil_conv)
next
  assume a: "firstCharIs atKey CHR ''@''"
  then have at: "atKey \<noteq> []" "atKey \<noteq> ''$''" by (auto simp: firstCharIs_def)
  show "fst (ruleLoop (cacheAfter earlier) selector depth fmt isOmitted ((atKey, Obj style) # keys) out)
        = fst (ruleLoop (cacheAfter earlier) selector depth fmt isOmitted keys
                 (if concat (fst (inlineLoop (cacheAfter earlier) selector depth fmt isOmitted style
                                    (writeDeclarations []
                        (fst (collectDeclarations (cacheAfter earlier) (getProp style ''$'')))
                        (depth + 1) fmt))) \<noteq> []
                  then out @ [wrapAtRule atKey
                                (concat (fst (inlineLoop (cacheAfter earlier) selector depth fmt
                                                isOmitted style
                                                (writeDeclarations []
                        (fst (collectDeclarations (cacheAfter earlier) (getProp style ''$'')))
                        (depth + 1) fmt))))
                                depth fmt]
                  else out))"
    unfolding ruleLoop_run inlineLoop_run collectDeclarations_run' using a at
    by (simp add: ownDeclarations_def del: concat_eq_Nil_conv)
  show "fst (inlineLoop (cacheAfter earlier) selector depth fmt isOmitted ((atKey, Obj style) # keys) out)
        = fst (inlineLoop (cacheAfter earlier) selector depth fmt isOmitted keys
                 (if fst (compileAtRule (cacheAfter earlier) atKey style selector (depth + 1) fmt
                            isOmitted) \<noteq> []
                  then out @ [fst (compileAtRule (cacheAfter earlier) atKey style selector
                                     (depth + 1) fmt isOmitted)]
                  else out))"
    unfolding inlineLoop_run compileAtRule_run using a at
    by (simp add: wrapAtRule_empty_iff del: concat_eq_Nil_conv)
  show "fst (atLoop (cacheAfter earlier) selector depth fmt isOmitted ((atKey, Obj style) # keys) out)
        = fst (atLoop (cacheAfter earlier) selector depth fmt isOmitted keys
                 (if fst (compileAtRule (cacheAfter earlier) atKey style selector (depth + 1) fmt
                            isOmitted) \<noteq> []
                  then out @ [fst (compileAtRule (cacheAfter earlier) atKey style selector
                                     (depth + 1) fmt isOmitted)]
                  else out))"
    unfolding atLoop_run compileAtRule_run using a at
    by (simp add: wrapAtRule_empty_iff del: concat_eq_Nil_conv)
next
  show "fst (compileAtRule (cacheAfter earlier) atKey style selector depth fmt isOmitted)
        = wrapAtRule atKey
            (concat (fst (atLoop (cacheAfter earlier) selector depth fmt isOmitted style
                            (writeDeclarations []
                        (fst (collectDeclarations (cacheAfter earlier) (getProp style ''$'')))
                        (depth + 1) fmt))))
            depth fmt"
    unfolding compileAtRule_run atLoop_run collectDeclarations_run'
    by (simp add: ownDeclarations_def)
next
  show "concat (writeRule [] selector ds depth Pretty)
        = concat (replicate depth ''  '') @ selector @ '' {\<newline>''
          @ concat (map (\<lambda>(prop, val).
                      concat (replicate (depth + 1) ''  '') @ prop @ '': '' @ val @ '';\<newline>'') ds)
          @ concat (replicate depth ''  '') @ ''}\<newline>''"
    by (rule concat_writeRule_pretty)
next
  assume a: "key \<noteq> [] \<and> key \<noteq> ''$'' \<and> \<not> firstCharIs key CHR ''@''
      \<and> \<not> isOmitted (resolveSelector [] key)"
  then show "fst (styleLoop (cacheAfter earlier) fmt isOmitted ((key, Obj child) # keys) out)
        = fst (styleLoop (cacheAfter earlier) fmt isOmitted keys
                 (fst (compileRuleNode (cacheAfter earlier) (resolveSelector [] key) child
                         0 fmt isOmitted out)))"
    unfolding styleLoop_run compileRuleNode_run by simp
next
  assume a: "firstCharIs atKey CHR ''@''"
  then have at: "atKey \<noteq> []" "atKey \<noteq> ''$''" by (auto simp: firstCharIs_def)
  show "fst (styleLoop (cacheAfter earlier) fmt isOmitted ((atKey, Obj style) # keys) out)
        = fst (styleLoop (cacheAfter earlier) fmt isOmitted keys
                 (if fst (compileAtRule (cacheAfter earlier) atKey style [] 0 fmt isOmitted) \<noteq> []
                  then out @ [fst (compileAtRule (cacheAfter earlier) atKey style [] 0 fmt
                                     isOmitted)]
                  else out))"
    unfolding styleLoop_run compileAtRule_run using a at
    by (simp add: wrapAtRule_empty_iff del: concat_eq_Nil_conv)
qed

theorem nested_rule_depth_witness:
  "fst (ruleLoop (cacheAfter []) ''#app'' 0 Pretty (\<lambda>s. False) [(''a'', Obj [(''$'', Obj [(''color'', Prim ''blue'')]), ('':hover'', Obj [(''$'', Obj [(''color'', Prim ''navy'')])])])] [])
     = fst (compileRuleNode (cacheAfter []) ''#app a'' [(''$'', Obj [(''color'', Prim ''blue'')]), ('':hover'', Obj [(''$'', Obj [(''color'', Prim ''navy'')])])] 0 Pretty (\<lambda>s. False) [])
   \<and> concat (fst (atLoop (cacheAfter []) ''#app'' 0 Pretty (\<lambda>s. False) [(''a'', Obj [(''$'', Obj [(''color'', Prim ''blue'')]), ('':hover'', Obj [(''$'', Obj [(''color'', Prim ''navy'')])])])] []))
     = ''  #app a {\<newline>    color: blue;\<newline>  }\<newline>  #app a:hover {\<newline>    color: navy;\<newline>  }\<newline>''
   \<and> concat (fst (inlineLoop (cacheAfter []) ''#app'' 0 Pretty (\<lambda>s. False) [(''a'', Obj [(''$'', Obj [(''color'', Prim ''blue'')]), ('':hover'', Obj [(''$'', Obj [(''color'', Prim ''navy'')])])])] []))
     = ''  #app a {\<newline>    color: blue;\<newline>  }\<newline>  #app a:hover {\<newline>    color: navy;\<newline>  }\<newline>''
   \<and> rulesBelow ''#app'' (\<lambda>s. False) [(''$'', Obj [(''color'', Prim ''red'')]), (''a'', Obj [(''$'', Obj [(''color'', Prim ''blue'')]), ('':hover'', Obj [(''$'', Obj [(''color'', Prim ''navy'')])])])]
     = [(''#app a'', [(''color'', ''blue'')]), (''#app a:hover'', [(''color'', ''navy'')])]
   \<and> concat (fst (compileRuleNode (cacheAfter []) ''#app'' [(''$'', Obj [(''color'', Prim ''red'')]), (''a'', Obj [(''$'', Obj [(''color'', Prim ''blue'')]), ('':hover'', Obj [(''$'', Obj [(''color'', Prim ''navy'')])])])] 0 Pretty (\<lambda>s. False) []))
     = ''#app {\<newline>  color: red;\<newline>}\<newline>#app a {\<newline>  color: blue;\<newline>}\<newline>#app a:hover {\<newline>  color: navy;\<newline>}\<newline>''
   \<and> concat (fst (ruleLoop (cacheAfter []) ''#app'' 0 Pretty (\<lambda>s. False)
                    [(''@media print'', Obj [(''a'', Obj [(''$'', Obj [(''color'', Prim ''blue'')]), ('':hover'', Obj [(''$'', Obj [(''color'', Prim ''navy'')])])])])] []))
     = ''@media print {\<newline>  #app a {\<newline>    color: blue;\<newline>  }\<newline>  #app a:hover {\<newline>    color: navy;\<newline>  }\<newline>}\<newline>''
   \<and> fst (compileAtRule (cacheAfter []) ''@media print'' [(''a'', Obj [(''$'', Obj [(''color'', Prim ''blue'')]), ('':hover'', Obj [(''$'', Obj [(''color'', Prim ''navy'')])])])] ''#app'' 0 Pretty
            (\<lambda>s. False))
     = ''@media print {\<newline>  #app a {\<newline>    color: blue;\<newline>  }\<newline>  #app a:hover {\<newline>    color: navy;\<newline>  }\<newline>}\<newline>''
   \<and> concat (fst (compileRuleNode (cacheAfter []) ''#app''
                    [(''@media print'', Obj [(''@supports (x)'', Obj [(''a'', Obj [(''$'', Obj [(''color'', Prim ''blue'')]), ('':hover'', Obj [(''$'', Obj [(''color'', Prim ''navy'')])])])])])]
                    0 Pretty (\<lambda>s. False) []))
     = ''@media print {\<newline>  @supports (x) {\<newline>    #app a {\<newline>      color: blue;\<newline>    }\<newline>    #app a:hover {\<newline>      color: navy;\<newline>    }\<newline>  }\<newline>}\<newline>''
   \<and> concat (fst (styleLoop (cacheAfter []) Pretty (\<lambda>s. False) [(''#app'', Obj [(''$'', Obj [(''color'', Prim ''red'')]), (''a'', Obj [(''$'', Obj [(''color'', Prim ''blue'')]), ('':hover'', Obj [(''$'', Obj [(''color'', Prim ''navy'')])])])])] []))
     = ''#app {\<newline>  color: red;\<newline>}\<newline>#app a {\<newline>  color: blue;\<newline>}\<newline>#app a:hover {\<newline>  color: navy;\<newline>}\<newline>''
   \<and> concat (fst (styleLoop (cacheAfter []) Pretty (\<lambda>s. False)
                    [(''@media print'', Obj [(''#app'', Obj [(''$'', Obj [(''color'', Prim ''red'')]), (''a'', Obj [(''$'', Obj [(''color'', Prim ''blue'')]), ('':hover'', Obj [(''$'', Obj [(''color'', Prim ''navy'')])])])])])] []))
     = ''@media print {\<newline>  #app {\<newline>    color: red;\<newline>  }\<newline>  #app a {\<newline>    color: blue;\<newline>  }\<newline>  #app a:hover {\<newline>    color: navy;\<newline>  }\<newline>}\<newline>''"
proof -
  note T = nested_rule_depth[where earlier = "[]" and key = "''a''" and selector = "''#app''"
      and isOmitted = "\<lambda>s. False" and depth = 0 and fmt = Pretty and child = "[(''$'', Obj [(''color'', Prim ''blue'')]), ('':hover'', Obj [(''$'', Obj [(''color'', Prim ''navy'')])])]"
      and keys = "[]" and out = "[]" and style = "[(''$'', Obj [(''color'', Prim ''red'')]), (''a'', Obj [(''$'', Obj [(''color'', Prim ''blue'')]), ('':hover'', Obj [(''$'', Obj [(''color'', Prim ''navy'')])])])]" and atKey = "''@media print''"]
  have sel: "resolveSelector ''#app'' ''a'' = ''#app a''"
    by (simp add: resolveSelector_eq firstCharIs_def)
  have h1: "''a'' \<noteq> [] \<and> ''a'' \<noteq> ''$'' \<and> \<not> firstCharIs ''a'' CHR ''@''
      \<and> \<not> (\<lambda>s. False) (resolveSelector ''#app'' ''a'')"
    by (simp add: firstCharIs_def)
  have h2: "atRuleFree [(''$'', Obj [(''color'', Prim ''red'')]), (''a'', Obj [(''$'', Obj [(''color'', Prim ''blue'')]), ('':hover'', Obj [(''$'', Obj [(''color'', Prim ''navy'')])])])]"
    by (simp add: firstCharIs_def)
  have h3: "''a'' \<noteq> [] \<and> ''a'' \<noteq> ''$'' \<and> \<not> firstCharIs ''a'' CHR ''@''
      \<and> \<not> (\<lambda>s. False) (resolveSelector ''#app'' ''a'') \<and> firstCharIs ''@media print'' CHR ''@''"
    by (simp add: firstCharIs_def)
  have h4: "firstCharIs ''@media print'' CHR ''@''"
    by (simp add: firstCharIs_def)
  have rules: "rulesBelow ''#app'' (\<lambda>s. False) [(''$'', Obj [(''color'', Prim ''red'')]), (''a'', Obj [(''$'', Obj [(''color'', Prim ''blue'')]), ('':hover'', Obj [(''$'', Obj [(''color'', Prim ''navy'')])])])]
     = [(''#app a'', [(''color'', ''blue'')]), (''#app a:hover'', [(''color'', ''navy'')])]"
    by (simp add: source_simps)
  note e1 = T[THEN conjunct1, THEN mp, OF h1]
  note e2 = T[THEN conjunct2, THEN conjunct1, THEN mp, OF h2]
  note e3 = T[THEN conjunct2, THEN conjunct2, THEN conjunct1, THEN mp, OF h1]
  note e4 = T[THEN conjunct2, THEN conjunct2, THEN conjunct2, THEN conjunct1, THEN mp, OF h3]
  note e5 = nested_rule_depth[where earlier = "[]" and selector = "''#app''"
      and isOmitted = "\<lambda>s. False" and depth = 0 and fmt = Pretty and keys = "[]" and out = "[]"
      and style = "[(''@supports (x)'', Obj [(''a'', Obj [(''$'', Obj [(''color'', Prim ''blue'')]), ('':hover'', Obj [(''$'', Obj [(''color'', Prim ''navy'')])])])])]"
      and atKey = "''@media print''",
      THEN conjunct2, THEN conjunct2, THEN conjunct2, THEN conjunct2, THEN conjunct1, THEN mp,
      OF h4]
  have own: "fst (collectDeclarations Map.empty (getProp [(''$'', Obj [(''color'', Prim ''red'')]), (''a'', Obj [(''$'', Obj [(''color'', Prim ''blue'')]), ('':hover'', Obj [(''$'', Obj [(''color'', Prim ''navy'')])])])] ''$'')) = [(''color'', ''red'')]"
    by (simp add: source_simps)
  have r1: "fst (ruleLoop (cacheAfter []) ''#app'' 0 Pretty (\<lambda>s. False) [(''a'', Obj [(''$'', Obj [(''color'', Prim ''blue'')]), ('':hover'', Obj [(''$'', Obj [(''color'', Prim ''navy'')])])])] [])
     = fst (compileRuleNode (cacheAfter []) ''#app a'' [(''$'', Obj [(''color'', Prim ''blue'')]), ('':hover'', Obj [(''$'', Obj [(''color'', Prim ''navy'')])])] 0 Pretty (\<lambda>s. False) [])"
    using e1[THEN conjunct1] sel by simp
  have r2: "concat (fst (atLoop (cacheAfter []) ''#app'' 0 Pretty (\<lambda>s. False) [(''a'', Obj [(''$'', Obj [(''color'', Prim ''blue'')]), ('':hover'', Obj [(''$'', Obj [(''color'', Prim ''navy'')])])])] []))
     = ''  #app a {\<newline>    color: blue;\<newline>  }\<newline>  #app a:hover {\<newline>    color: navy;\<newline>  }\<newline>''"
    using e1[THEN conjunct2] sel by (simp add: source_simps)
  have r2': "concat (fst (inlineLoop (cacheAfter []) ''#app'' 0 Pretty (\<lambda>s. False) [(''a'', Obj [(''$'', Obj [(''color'', Prim ''blue'')]), ('':hover'', Obj [(''$'', Obj [(''color'', Prim ''navy'')])])])] []))
     = ''  #app a {\<newline>    color: blue;\<newline>  }\<newline>  #app a:hover {\<newline>    color: navy;\<newline>  }\<newline>''"
    using e3 sel by (simp add: source_simps)
  have r3: "concat (fst (compileRuleNode (cacheAfter []) ''#app'' [(''$'', Obj [(''color'', Prim ''red'')]), (''a'', Obj [(''$'', Obj [(''color'', Prim ''blue'')]), ('':hover'', Obj [(''$'', Obj [(''color'', Prim ''navy'')])])])] 0 Pretty (\<lambda>s. False) []))
     = ''#app {\<newline>  color: red;\<newline>}\<newline>#app a {\<newline>  color: blue;\<newline>}\<newline>#app a:hover {\<newline>  color: navy;\<newline>}\<newline>''"
    unfolding e2 rules own by (simp add: writeRule_def indent_def)
  have r4: "concat (fst (ruleLoop (cacheAfter []) ''#app'' 0 Pretty (\<lambda>s. False)
                    [(''@media print'', Obj [(''a'', Obj [(''$'', Obj [(''color'', Prim ''blue'')]), ('':hover'', Obj [(''$'', Obj [(''color'', Prim ''navy'')])])])])] []))
     = ''@media print {\<newline>  #app a {\<newline>    color: blue;\<newline>  }\<newline>  #app a:hover {\<newline>    color: navy;\<newline>  }\<newline>}\<newline>''"
    using e4[THEN conjunct1] sel by (simp add: source_simps)
  have r5: "fst (compileAtRule (cacheAfter []) ''@media print'' [(''a'', Obj [(''$'', Obj [(''color'', Prim ''blue'')]), ('':hover'', Obj [(''$'', Obj [(''color'', Prim ''navy'')])])])] ''#app'' 0 Pretty
            (\<lambda>s. False))
     = ''@media print {\<newline>  #app a {\<newline>    color: blue;\<newline>  }\<newline>  #app a:hover {\<newline>    color: navy;\<newline>  }\<newline>}\<newline>''"
    using e4[THEN conjunct2] sel by (simp add: source_simps)
  have r6: "concat (fst (compileRuleNode (cacheAfter []) ''#app''
                    [(''@media print'', Obj [(''@supports (x)'', Obj [(''a'', Obj [(''$'', Obj [(''color'', Prim ''blue'')]), ('':hover'', Obj [(''$'', Obj [(''color'', Prim ''navy'')])])])])])]
                    0 Pretty (\<lambda>s. False) []))
     = ''@media print {\<newline>  @supports (x) {\<newline>    #app a {\<newline>      color: blue;\<newline>    }\<newline>    #app a:hover {\<newline>      color: navy;\<newline>    }\<newline>  }\<newline>}\<newline>''"
    using e5[THEN conjunct1] by (simp add: source_simps)
  have h5: "''#app'' \<noteq> [] \<and> ''#app'' \<noteq> ''$'' \<and> \<not> firstCharIs ''#app'' CHR ''@''
      \<and> \<not> (\<lambda>s. False) (resolveSelector [] ''#app'')"
    by (simp add: firstCharIs_def)
  note e6 = nested_rule_depth[where earlier = "[]" and key = "''#app''"
      and isOmitted = "\<lambda>s. False" and fmt = Pretty and child = "[(''$'', Obj [(''color'', Prim ''red'')]), (''a'', Obj [(''$'', Obj [(''color'', Prim ''blue'')]), ('':hover'', Obj [(''$'', Obj [(''color'', Prim ''navy'')])])])]"
      and keys = "[]" and out = "[]",
      THEN conjunct2, THEN conjunct2, THEN conjunct2, THEN conjunct2, THEN conjunct2,
      THEN conjunct2, THEN conjunct2, THEN conjunct1, THEN mp, OF h5]
  note e7 = nested_rule_depth[where earlier = "[]" and atKey = "''@media print''"
      and isOmitted = "\<lambda>s. False" and fmt = Pretty and style = "[(''#app'', Obj [(''$'', Obj [(''color'', Prim ''red'')]), (''a'', Obj [(''$'', Obj [(''color'', Prim ''blue'')]), ('':hover'', Obj [(''$'', Obj [(''color'', Prim ''navy'')])])])])]"
      and keys = "[]" and out = "[]",
      THEN conjunct2, THEN conjunct2, THEN conjunct2, THEN conjunct2, THEN conjunct2,
      THEN conjunct2, THEN conjunct2, THEN conjunct2, THEN mp, OF h4]
  have r7: "concat (fst (styleLoop (cacheAfter []) Pretty (\<lambda>s. False) [(''#app'', Obj [(''$'', Obj [(''color'', Prim ''red'')]), (''a'', Obj [(''$'', Obj [(''color'', Prim ''blue'')]), ('':hover'', Obj [(''$'', Obj [(''color'', Prim ''navy'')])])])])] []))
     = ''#app {\<newline>  color: red;\<newline>}\<newline>#app a {\<newline>  color: blue;\<newline>}\<newline>#app a:hover {\<newline>  color: navy;\<newline>}\<newline>''"
    using e6 by (simp add: source_simps)
  have r8: "concat (fst (styleLoop (cacheAfter []) Pretty (\<lambda>s. False)
                    [(''@media print'', Obj [(''#app'', Obj [(''$'', Obj [(''color'', Prim ''red'')]), (''a'', Obj [(''$'', Obj [(''color'', Prim ''blue'')]), ('':hover'', Obj [(''$'', Obj [(''color'', Prim ''navy'')])])])])])] []))
     = ''@media print {\<newline>  #app {\<newline>    color: red;\<newline>  }\<newline>  #app a {\<newline>    color: blue;\<newline>  }\<newline>  #app a:hover {\<newline>    color: navy;\<newline>  }\<newline>}\<newline>''"
    using e7 by (simp add: source_simps)
  show ?thesis by (intro conjI r1 r2 r2' rules r3 r4 r5 r6 r7 r8)
qed

section \<open>Pretty and minified output\<close>

lemma filter_indent: "CHR '' '' \<in> W \<Longrightarrow> filter (\<lambda>c. c \<notin> W) (indent depth fmt) = []"
  by (induction depth) (simp_all add: indent_def)

lemma without_declarations:
  assumes "CHR '' '' \<in> W" "CHR ''\<newline>'' \<in> W"
  shows "without W (concat (concat (map (\<lambda>(prop, val). [indent d fmt, prop, '': '', val, '';\<newline>'']) ds)))
       = without W (concat (concat (map (\<lambda>(prop, val). [prop, '':'', val, '';'']) ds)))"
  using assms by (induction ds) (auto simp: without_def filter_indent)

lemma without_ownRule:
  assumes "CHR '' '' \<in> W" "CHR ''\<newline>'' \<in> W"
  shows "without W (concat (ownRule selector style depth fmt))
       = without W (concat (ownRule selector style depth Minify))"
  using assms
    without_declarations[OF assms, of "depth + 1" fmt "declarationsOf (getProp style ''$'')"]
  by (cases fmt) (simp_all add: ownRule_def writeRule_eq without_def filter_indent)

lemma without_ownDeclarations:
  assumes "CHR '' '' \<in> W" "CHR ''\<newline>'' \<in> W"
  shows "without W (concat (ownDeclarations style depth fmt))
       = without W (concat (ownDeclarations style depth Minify))"
  using without_declarations[OF assms, of depth fmt "declarationsOf (getProp style ''$'')"]
  by (cases fmt) (simp_all add: ownDeclarations_def writeDeclarations_eq)

lemma ownDeclarations_empty:
  "concat (ownDeclarations style depth fmt) = [] \<longleftrightarrow> declarationsOf (getProp style ''$'') = []"
  by (cases "declarationsOf (getProp style ''$'')")
     (auto simp: ownDeclarations_def writeDeclarations_eq)

lemma ownRule_empty:
  "concat (ownRule selector style depth fmt) = [] \<longleftrightarrow> declarationsOf (getProp style ''$'') = []"
  by (cases fmt) (simp_all add: ownRule_def writeRule_eq del: concat_eq_Nil_conv)

lemma walk_at_rule_step:
  assumes "firstCharIs key CHR ''@''"
  shows "concat (walk selector depth fmt isOmitted ((key, Obj style) # keys))
           = wrapAtRule key (concat (ownDeclarations style (depth + 1) fmt
                                     @ walk selector (depth + 1) fmt isOmitted style)) depth fmt
             @ concat (walk selector depth fmt isOmitted keys)"
proof -
  from assms have "key \<noteq> []" "key \<noteq> ''$''" by (auto simp: firstCharIs_def)
  with assms show ?thesis
    by (cases "concat (ownDeclarations style (depth + 1) fmt
                       @ walk selector (depth + 1) fmt isOmitted style) = []")
       (simp_all add: wrapAtRule_def del: concat_eq_Nil_conv concat_append)
qed

lemma without_wrapAtRule:
  assumes "CHR '' '' \<in> W" "CHR ''\<newline>'' \<in> W"
    and "without W body = without W body'" and "body = [] \<longleftrightarrow> body' = []"
  shows "without W (wrapAtRule name body depth fmt)
       = without W (wrapAtRule name body' depth Minify)"
  using assms
  by (cases fmt) (simp_all add: wrapAtRule_def without_def filter_indent Let_def)

lemma walk_formats:
  assumes W: "CHR '' '' \<in> W" "CHR ''\<newline>'' \<in> W"
  shows "without W (concat (walk selector depth fmt isOmitted keys))
           = without W (concat (walk selector depth Minify isOmitted keys))
         \<and> (concat (walk selector depth fmt isOmitted keys) = []
              \<longleftrightarrow> concat (walk selector depth Minify isOmitted keys) = [])"
proof (induction selector depth fmt isOmitted keys rule: walk.induct)
  case (1 selector depth fmt isOmitted)
  show ?case by simp
next
  case (2 selector depth fmt isOmitted key child keys)
  show ?case
  proof (cases "key = [] \<or> key = ''$''")
    case True
    with 2 show ?thesis by simp
  next
    case nk: False
    show ?thesis
    proof (cases child)
      case (Obj cs)
      show ?thesis
      proof (cases "firstCharIs key CHR ''@''")
        case at: True
        let ?bp = "concat (ownDeclarations cs (depth + 1) fmt
                           @ walk selector (depth + 1) fmt isOmitted cs)"
        let ?bm = "concat (ownDeclarations cs (depth + 1) Minify
                           @ walk selector (depth + 1) Minify isOmitted cs)"
        from "2.IH"(5)[OF nk Obj at] without_ownDeclarations[OF W, of cs "depth + 1" fmt]
        have b: "without W ?bp = without W ?bm"
          by (simp add: without_def)
        from "2.IH"(5)[OF nk Obj at] ownDeclarations_empty[of cs "depth + 1"]
        have e: "?bp = [] \<longleftrightarrow> ?bm = []"
          by (simp del: concat_eq_Nil_conv)
        from "2.IH"(7)[OF nk Obj at] without_wrapAtRule[OF W b e, of key depth] e
        show ?thesis unfolding Obj walk_at_rule_step[OF at]
          by (simp add: without_def wrapAtRule_empty_iff del: concat_eq_Nil_conv concat_append)
      next
        case nat: False
        show ?thesis
        proof (cases "isOmitted (resolveSelector selector key)")
          case True
          with 2 nk Obj nat show ?thesis by simp
        next
          case no: False
          from "2.IH"(9,10)[OF nk Obj nat no]
               without_ownRule[OF W, of "resolveSelector selector key" cs depth fmt]
               ownRule_empty[of "resolveSelector selector key" cs depth]
               nk Obj nat no
          show ?thesis
            by (simp add: without_def del: concat_eq_Nil_conv) 
        qed
      qed
    qed (use 2 nk in simp_all)
  qed
qed

text \<open>
  Claim C8, as stated, fails. A descendant selector holds a space of its own: with
  the whitespace taken out, the pretty output of the tree below reads \<^verbatim>\<open>#appa{...}\<close>,
  while the minified output keeps \<^verbatim>\<open>#app a{...}\<close>; they differ by more than a
  trailing newline.
\<close>

theorem pretty_minify_counterexample:
  "map_option (without {CHR '' '', CHR ''\<newline>'', CHR 0x09, CHR 0x0D})
     (css (compileStyle Map.empty (Obj [(''#app'', Obj [(''a'', Obj [(''$'', Obj [(''color'', Prim ''red'')])])])]) (Options \<lparr>omit = None, format = Some Pretty\<rparr>)))
     = Some ''#appa{color:red;}''
   \<and> css (compileStyle Map.empty (Obj [(''#app'', Obj [(''a'', Obj [(''$'', Obj [(''color'', Prim ''red'')])])])]) (Options \<lparr>omit = None, format = Some Minify\<rparr>))
     = Some ''#app a{color:red;}''
   \<and> map_option (without {CHR '' '', CHR ''\<newline>'', CHR 0x09, CHR 0x0D})
       (css (compileStyle Map.empty (Obj [(''#app'', Obj [(''a'', Obj [(''$'', Obj [(''color'', Prim ''red'')])])])]) (Options \<lparr>omit = None, format = Some Pretty\<rparr>)))
     \<noteq> css (compileStyle Map.empty (Obj [(''#app'', Obj [(''a'', Obj [(''$'', Obj [(''color'', Prim ''red'')])])])]) (Options \<lparr>omit = None, format = Some Minify\<rparr>))"
  by (simp add: source_simps without_def)

text \<open>
  Claim C8, amended. For every style tree and exclusion list, and for every set of
  characters that counts as whitespace and holds the space and the newline, the
  pretty output and the minified output are the same text once the whitespace is
  taken out of both; where the minified output holds no whitespace, it is the pretty
  output with the whitespace taken out.
\<close>

theorem pretty_minify_without_whitespace:
  "(CHR '' '' \<in> W \<and> CHR ''\<newline>'' \<in> W \<longrightarrow>
      map_option (without W)
        (css (compileStyle (cacheAfter earlier) style
                (Options \<lparr>omit = globs, format = Some Pretty\<rparr>)))
      = map_option (without W)
          (css (compileStyle (cacheAfter earlier) style
                  (Options \<lparr>omit = globs, format = Some Minify\<rparr>))))
   \<and> (CHR '' '' \<in> W \<and> CHR ''\<newline>'' \<in> W
      \<and> css (compileStyle (cacheAfter earlier) style
                (Options \<lparr>omit = globs, format = Some Minify\<rparr>)) = Some minified
      \<and> (\<forall>c \<in> set minified. c \<notin> W) \<longrightarrow>
      map_option (without W)
        (css (compileStyle (cacheAfter earlier) style
                (Options \<lparr>omit = globs, format = Some Pretty\<rparr>)))
      = Some minified)"
proof -
  have both: "map_option (without W)
        (css (compileStyle (cacheAfter earlier) style
                (Options \<lparr>omit = globs, format = Some Pretty\<rparr>)))
      = map_option (without W)
          (css (compileStyle (cacheAfter earlier) style
                  (Options \<lparr>omit = globs, format = Some Minify\<rparr>)))"
    if W: "CHR '' '' \<in> W \<and> CHR ''\<newline>'' \<in> W"
  proof (cases style)
    case (Obj keys)
    from W walk_formats[of W "[]" 0 Pretty "omitted globs" keys] show ?thesis
      unfolding Obj
      by (simp add: compileStyle_denotation cacheAfter_ok formatOf_def omitOf_def
            normalizeOptions_def)
  qed (simp_all add: compileStyle_def css_def)
  have clean: "without W minified = minified" if "\<forall>c \<in> set minified. c \<notin> W"
    using that by (simp add: without_def)
  show ?thesis using both clean by simp
qed

theorem pretty_minify_without_whitespace_witness:
  "map_option (without {CHR '' '', CHR ''\<newline>'', CHR 0x09, CHR 0x0D})
     (css (compileStyle (cacheAfter []) (Obj [(''#app'', Obj [(''a'', Obj [(''$'', Obj [(''color'', Prim ''red'')])])])])
             (Options \<lparr>omit = None, format = Some Pretty\<rparr>)))
   = map_option (without {CHR '' '', CHR ''\<newline>'', CHR 0x09, CHR 0x0D})
       (css (compileStyle (cacheAfter []) (Obj [(''#app'', Obj [(''a'', Obj [(''$'', Obj [(''color'', Prim ''red'')])])])])
               (Options \<lparr>omit = None, format = Some Minify\<rparr>)))
   \<and> map_option (without {CHR '' '', CHR ''\<newline>'', CHR 0x09, CHR 0x0D})
       (css (compileStyle (cacheAfter []) (Obj [(''#app'', Obj [(''a'', Obj [(''$'', Obj [(''color'', Prim ''red'')])])])])
               (Options \<lparr>omit = None, format = Some Minify\<rparr>)))
     = Some ''#appa{color:red;}''
   \<and> map_option (without {CHR '' '', CHR ''\<newline>'', CHR 0x09, CHR 0x0D})
       (css (compileStyle (cacheAfter []) (Obj [(''#app'', Obj [(''$'', Obj [(''color'', Prim ''red'')])])])
               (Options \<lparr>omit = None, format = Some Pretty\<rparr>)))
     = Some ''#app{color:red;}''"
proof -
  have W: "CHR '' '' \<in> {CHR '' '', CHR ''\<newline>'', CHR 0x09, CHR 0x0D} \<and> CHR ''\<newline>'' \<in> {CHR '' '', CHR ''\<newline>'', CHR 0x09, CHR 0x0D}"
    by simp
  have m: "map_option (without {CHR '' '', CHR ''\<newline>'', CHR 0x09, CHR 0x0D})
       (css (compileStyle (cacheAfter []) (Obj [(''#app'', Obj [(''a'', Obj [(''$'', Obj [(''color'', Prim ''red'')])])])])
               (Options \<lparr>omit = None, format = Some Minify\<rparr>)))
     = Some ''#appa{color:red;}''"
    by (simp add: source_simps without_def)
  have W2: "CHR '' '' \<in> {CHR '' '', CHR ''\<newline>'', CHR 0x09, CHR 0x0D} \<and> CHR ''\<newline>'' \<in> {CHR '' '', CHR ''\<newline>'', CHR 0x09, CHR 0x0D}
      \<and> css (compileStyle (cacheAfter []) (Obj [(''#app'', Obj [(''$'', Obj [(''color'', Prim ''red'')])])])
                (Options \<lparr>omit = None, format = Some Minify\<rparr>)) = Some ''#app{color:red;}''
      \<and> (\<forall>c \<in> set ''#app{color:red;}''. c \<notin> {CHR '' '', CHR ''\<newline>'', CHR 0x09, CHR 0x0D})"
    by (simp add: source_simps)
  note T = pretty_minify_without_whitespace[where W = "{CHR '' '', CHR ''\<newline>'', CHR 0x09, CHR 0x0D}" and earlier = "[]"
         and style = "Obj [(''#app'', Obj [(''a'', Obj [(''$'', Obj [(''color'', Prim ''red'')])])])]" and globs = None]
  note T2 = pretty_minify_without_whitespace[where W = "{CHR '' '', CHR ''\<newline>'', CHR 0x09, CHR 0x0D}" and earlier = "[]"
         and style = "Obj [(''#app'', Obj [(''$'', Obj [(''color'', Prim ''red'')])])]" and globs = None
         and minified = "''#app{color:red;}''"]
  from T[THEN conjunct1, THEN mp, OF W] m T2[THEN conjunct2, THEN mp, OF W2]
  show ?thesis by (intro conjI)
qed

end
